theory Spec2Isabelle
  imports Main "HOL-Library.Monad_Syntax"
begin

section \<open>The undo/redo history: data model\<close>

text \<open>
  The model follows \<^verbatim>\<open>History.h\<close> and its implementation file. Objects live in an
  explicit store and are addressed by pointers, because the code reaches the same
  context through the global \<^verbatim>\<open>s_Context\<close>, through \<^verbatim>\<open>m_ParentContext\<close> and through the
  record that embeds it.

  \<^item> A \<^verbatim>\<open>History*\<close> is \<open>hist_ptr option\<close>: \<open>None\<close> is \<^verbatim>\<open>nullptr\<close>, \<open>Some p\<close> the address
    \<open>p\<close> of the heap (\<^verbatim>\<open>new\<close> appends a cell, \<^verbatim>\<open>delete\<close> empties it).
  \<^item> A \<^verbatim>\<open>HistoryContext*\<close> is \<open>ctx_ptr option\<close>: a context is either owned by the host
    (\<open>host_ctx n\<close>) or is the member \<^verbatim>\<open>m_SubContext\<close> embedded by value in the record
    at \<open>p\<close> (\<open>sub_ctx p\<close>), so it dies with that record.
  \<^item> Every operation returns an \<open>option\<close>: \<open>None\<close> stands for an execution that has
    no defined result (a pointer that addresses no live object is dereferenced, a
    vector is read out of range or popped when empty, the walk up the parent chain
    never ends, a mutex already held is acquired again).
  \<^item> The do/undo delegates are host code. A record stores their identity and its
    captured arguments; the host's meaning of a delegate is the parameter \<open>call\<close>
    of \<open>Undo\<close> and \<open>Redo\<close>.
  \<^item> \<^verbatim>\<open>m_PresentHistoryIdx\<close> is an \<^verbatim>\<open>int\<close>; it is modelled as a mathematical
    integer (stacks stay far below \<open>2^31\<close> entries, where the comparisons of the code
    between \<^verbatim>\<open>int\<close> and \<^verbatim>\<open>size_t\<close> agree with the comparisons on integers).
\<close>

type_synonym hist_ptr = nat

datatype ctx_ptr = host_ctx nat | sub_ctx hist_ptr

text \<open>\<^verbatim>\<open>std::function<void(int)>\<close>: the default \<^verbatim>\<open>[](int) {}\<close> or a function of the host.\<close>

datatype observer = noop_lambda | host_func nat

record HistoryContext =
  m_HistoryStack :: "hist_ptr option list"
  m_PresentHistoryIdx :: int
  m_IsUndoing :: bool
  m_IsRedoing :: bool
  m_ParentContext :: "ctx_ptr option"
  m_OnStackChanged :: observer
  m_Mutex :: bool

text \<open>
  The constructor \<^verbatim>\<open>HistoryContext(HistoryContext* parent)\<close> with the default member
  initialisers: \<^verbatim>\<open>std::vector<History*>(1)\<close> is a vector of one value-initialised
  pointer, that is one \<^verbatim>\<open>nullptr\<close>.
\<close>

definition new_HistoryContext :: "ctx_ptr option \<Rightarrow> HistoryContext" where
  "new_HistoryContext parent =
     \<lparr> m_HistoryStack = [None], m_PresentHistoryIdx = 0,
       m_IsUndoing = False, m_IsRedoing = False,
       m_ParentContext = parent, m_OnStackChanged = noop_lambda, m_Mutex = False \<rparr>"

text \<open>
  \<^verbatim>\<open>std::type_info\<close>: the type \<^verbatim>\<open>std::any\<close> itself, or another type, given by its name.
\<close>

datatype type_info = std_any | type_named string

text \<open>\<^verbatim>\<open>std::any\<close>: empty, or a value together with the type it was stored at.\<close>

datatype 'v any = any_empty | any_holds type_info 'v

datatype exception = bad_any_cast

text \<open>\<^verbatim>\<open>std::any_cast<T>(a)\<close> by value: throws unless \<open>a\<close> holds a value of type \<open>T\<close>.\<close>

fun any_cast :: "type_info \<Rightarrow> 'v any \<Rightarrow> exception + 'v" where
  "any_cast T any_empty = Inl bad_any_cast"
| "any_cast T (any_holds U v) = (if U = T then Inr v else Inl bad_any_cast)"

text \<open>\<^verbatim>\<open>HistoryWithParams<Args...>\<close>, with the members inherited from \<^verbatim>\<open>History\<close>.\<close>

record 'v History =
  m_Data :: "string \<rightharpoonup> 'v any"
  m_Label :: string
  m_ID :: nat
  m_SubContext :: HistoryContext
  m_Params :: "'v list"
  m_DoFunc :: nat
  m_UndoFunc :: nat

text \<open>
  The process: the two static members of \<^verbatim>\<open>History\<close>, the static counter of
  \<^verbatim>\<open>NewID\<close>, the contexts owned by the host, the heap of records, the calls made
  to observers so far (context, observer called, argument), and the host's own data.
\<close>

record ('v, 'h) world =
  s_Context :: "ctx_ptr option"
  s_Lock :: bool
  NewID_id :: nat
  host_contexts :: "HistoryContext list"
  heap :: "'v History option list"
  notified :: "(ctx_ptr \<times> observer \<times> int) list"
  host :: 'h

subsection \<open>Reading and writing through pointers\<close>

definition hist_at :: "('v, 'h) world \<Rightarrow> hist_ptr \<Rightarrow> 'v History option" where
  "hist_at w p = (if p < length (heap w) then heap w ! p else None)"

definition hist_upd :: "hist_ptr \<Rightarrow> ('v History \<Rightarrow> 'v History) \<Rightarrow> ('v, 'h) world \<Rightarrow> ('v, 'h) world" where
  "hist_upd p f w = w\<lparr>heap := (heap w)[p := map_option f (hist_at w p)]\<rparr>"

fun ctx_at :: "('v, 'h) world \<Rightarrow> ctx_ptr \<Rightarrow> HistoryContext option" where
  "ctx_at w (host_ctx n) =
     (if n < length (host_contexts w) then Some (host_contexts w ! n) else None)"
| "ctx_at w (sub_ctx p) = map_option m_SubContext (hist_at w p)"

fun ctx_upd :: "ctx_ptr \<Rightarrow> (HistoryContext \<Rightarrow> HistoryContext) \<Rightarrow> ('v, 'h) world \<Rightarrow> ('v, 'h) world" where
  "ctx_upd (host_ctx n) f w =
     w\<lparr>host_contexts := (host_contexts w)[n := f (host_contexts w ! n)]\<rparr>"
| "ctx_upd (sub_ctx p) f w = hist_upd p (\<lambda>h. h\<lparr>m_SubContext := f (m_SubContext h)\<rparr>) w"

section \<open>HistoryContext\<close>

definition ParentContext :: "('v, 'h) world \<Rightarrow> ctx_ptr \<Rightarrow> ctx_ptr option option" where
  "ParentContext w this =
     (if s_Lock w then Some None
      else do { x \<leftarrow> ctx_at w this; Some (m_ParentContext x) })"

text \<open>The two \<^verbatim>\<open>while (true)\<close> walks up the parent chain.\<close>

partial_function (option) IsUndoing :: "('v, 'h) world \<Rightarrow> ctx_ptr \<Rightarrow> bool option" where
  "IsUndoing w context =
     do { x \<leftarrow> ctx_at w context;
          if m_IsUndoing x then Some True
          else do { parent \<leftarrow> ParentContext w context;
                    case parent of
                      Some up \<Rightarrow> IsUndoing w up
                    | None \<Rightarrow> Some False } }"

partial_function (option) IsRedoing :: "('v, 'h) world \<Rightarrow> ctx_ptr \<Rightarrow> bool option" where
  "IsRedoing w context =
     do { x \<leftarrow> ctx_at w context;
          if m_IsRedoing x then Some True
          else do { parent \<leftarrow> ParentContext w context;
                    case parent of
                      Some up \<Rightarrow> IsRedoing w up
                    | None \<Rightarrow> Some False } }"

declare IsUndoing.simps [code]
declare IsRedoing.simps [code]

definition IsUndoingOrRedoing :: "('v, 'h) world \<Rightarrow> ctx_ptr \<Rightarrow> bool option" where
  "IsUndoingOrRedoing w this =
     do { u \<leftarrow> IsUndoing w this;
          if u then Some True else IsRedoing w this }"

text \<open>\<^verbatim>\<open>m_HistoryStack[i]\<close>: reading outside the vector has no defined result.\<close>

definition stack_at :: "HistoryContext \<Rightarrow> int \<Rightarrow> hist_ptr option option" where
  "stack_at x i =
     (if 0 \<le> i \<and> i < int (length (m_HistoryStack x))
      then Some (m_HistoryStack x ! nat i) else None)"

definition Present :: "('v, 'h) world \<Rightarrow> ctx_ptr \<Rightarrow> hist_ptr option option" where
  "Present w this =
     (if s_Lock w then Some None
      else do { x \<leftarrow> ctx_at w this; stack_at x (m_PresentHistoryIdx x) })"

text \<open>Calling \<^verbatim>\<open>m_OnStackChanged(m_PresentHistoryIdx)\<close>.\<close>

definition fire_OnStackChanged :: "ctx_ptr \<Rightarrow> ('v, 'h) world \<Rightarrow> ('v, 'h) world option" where
  "fire_OnStackChanged this w =
     do { x \<leftarrow> ctx_at w this;
          Some (w\<lparr>notified := notified w @ [(this, m_OnStackChanged x, m_PresentHistoryIdx x)]\<rparr>) }"

text \<open>\<^verbatim>\<open>delete p\<close>: nothing for \<^verbatim>\<open>nullptr\<close>; the record and its embedded sub-context die.\<close>

definition delete_History :: "hist_ptr option \<Rightarrow> ('v, 'h) world \<Rightarrow> ('v, 'h) world option" where
  "delete_History q w =
     (case q of
        None \<Rightarrow> Some w
      | Some p \<Rightarrow> do { h \<leftarrow> hist_at w p; Some (w\<lparr>heap := (heap w)[p := None]\<rparr>) })"

subsection \<open>Push\<close>

text \<open>
  The loop of \<^verbatim>\<open>PrePush\<close>:
  \<^verbatim>\<open>while (m_HistoryStack.size() != m_PresentHistoryIdx) { delete back(); pop_back(); }\<close>
\<close>

function PrePush_loop :: "ctx_ptr \<Rightarrow> ('v, 'h) world \<Rightarrow> ('v, 'h) world option" where
  "PrePush_loop this w =
     (case ctx_at w this of
        None \<Rightarrow> None
      | Some x \<Rightarrow>
          if int (length (m_HistoryStack x)) = m_PresentHistoryIdx x then Some w
          else if m_HistoryStack x = [] then None
          else (case delete_History (last (m_HistoryStack x)) w of
                  None \<Rightarrow> None
                | Some w' \<Rightarrow>
                    (case ctx_at w' this of
                       None \<Rightarrow> None
                     | Some x' \<Rightarrow>
                         PrePush_loop this
                           (ctx_upd this (\<lambda>y. y\<lparr>m_HistoryStack := butlast (m_HistoryStack y)\<rparr>) w'))))"
  by pat_completeness auto
termination
proof (relation "measure (\<lambda>(this, w). case ctx_at w this of None \<Rightarrow> 0
                                      | Some x \<Rightarrow> length (m_HistoryStack x))")
  show "wf (measure (\<lambda>(this, w). case ctx_at w this of None \<Rightarrow> 0
                                      | Some x \<Rightarrow> length (m_HistoryStack x)))"
    by simp
next
  fix this :: ctx_ptr and w w' :: "('v, 'h) world" and x x' :: HistoryContext
  assume live: "ctx_at w this = Some x"
    and nonempty: "m_HistoryStack x \<noteq> []"
    and del: "delete_History (last (m_HistoryStack x)) w = Some w'"
    and live': "ctx_at w' this = Some x'"
  have same: "x' = x"
  proof (cases "last (m_HistoryStack x)")
    case None
    with del live live' show ?thesis by (simp add: delete_History_def)
  next
    case (Some p)
    with del have w': "w' = w\<lparr>heap := (heap w)[p := None]\<rparr>"
      by (auto simp: delete_History_def Option.bind_eq_Some_conv)
    show ?thesis
    proof (cases this)
      case (host_ctx n)
      with live live' w' show ?thesis by (simp split: if_splits)
    next
      case (sub_ctx q)
      with live live' w' show ?thesis
        by (cases "q = p") (auto simp: hist_at_def split: if_splits)
    qed
  qed
  have "ctx_at (ctx_upd this (\<lambda>y. y\<lparr>m_HistoryStack := butlast (m_HistoryStack y)\<rparr>) w') this
        = Some (x'\<lparr>m_HistoryStack := butlast (m_HistoryStack x')\<rparr>)"
    using live' by (cases this) (auto simp: hist_at_def hist_upd_def split: if_splits)
  with same nonempty live
  show "((this, ctx_upd this (\<lambda>y. y\<lparr>m_HistoryStack := butlast (m_HistoryStack y)\<rparr>) w'), (this, w))
        \<in> measure (\<lambda>(this, w). case ctx_at w this of None \<Rightarrow> 0
                                      | Some x \<Rightarrow> length (m_HistoryStack x))"
    by simp
qed

definition PrePush :: "ctx_ptr \<Rightarrow> ('v, 'h) world \<Rightarrow> ('v, 'h) world option" where
  "PrePush this w =
     (if s_Lock w then Some w
      else do { x \<leftarrow> ctx_at w this;
                PrePush_loop this
                  (ctx_upd this (\<lambda>y. y\<lparr>m_PresentHistoryIdx := m_PresentHistoryIdx y + 1\<rparr>) w) })"

text \<open>
  \<^verbatim>\<open>new HistoryWithParams<Args...>(this, name, do_func, undo_func, args...)\<close>: the
  record gets the next id (\<^verbatim>\<open>++id\<close> on an \<^verbatim>\<open>unsigned int\<close>), an empty memento map
  and a sub-context whose parent is the context pushed to.
\<close>

definition new_HistoryWithParams ::
  "ctx_ptr \<Rightarrow> string \<Rightarrow> nat \<Rightarrow> nat \<Rightarrow> 'v list \<Rightarrow> ('v, 'h) world \<Rightarrow> hist_ptr \<times> ('v, 'h) world" where
  "new_HistoryWithParams parentContext name d ud args w =
     (let fresh = (NewID_id w + 1) mod 2 ^ 32;
          h = \<lparr> m_Data = Map.empty, m_Label = name, m_ID = fresh,
                m_SubContext = new_HistoryContext (Some parentContext),
                m_Params = args, m_DoFunc = d, m_UndoFunc = ud \<rparr>
      in (length (heap w), w\<lparr>NewID_id := fresh, heap := heap w @ [Some h]\<rparr>))"

definition Push ::
  "string \<Rightarrow> nat \<Rightarrow> nat \<Rightarrow> 'v list \<Rightarrow> ctx_ptr \<Rightarrow> ('v, 'h) world \<Rightarrow> ('v, 'h) world option" where
  "Push name do_func undo_func args this w =
     (if s_Lock w then Some w
      else do { busy \<leftarrow> IsUndoingOrRedoing w this;
                if busy then Some w
                else do { w1 \<leftarrow> PrePush this w;
                          (p, w2) \<leftarrow> Some (new_HistoryWithParams this name do_func undo_func args w1);
                          x \<leftarrow> ctx_at w2 this;
                          Some (ctx_upd this
                                  (\<lambda>y. y\<lparr>m_HistoryStack := m_HistoryStack y @ [Some p]\<rparr>) w2) } })"

definition AbortPush :: "ctx_ptr \<Rightarrow> ('v, 'h) world \<Rightarrow> ('v, 'h) world option" where
  "AbortPush this w =
     (if s_Lock w then Some w
      else do { busy \<leftarrow> IsUndoingOrRedoing w this;
                if busy then Some w
                else do { x \<leftarrow> ctx_at w this;
                          if m_HistoryStack x = [] then None
                          else Some (ctx_upd this
                                 (\<lambda>y. y\<lparr>m_PresentHistoryIdx := m_PresentHistoryIdx y - 1,
                                        m_HistoryStack := butlast (m_HistoryStack y)\<rparr>) w) } })"

definition BindOnStackChanged :: "observer \<Rightarrow> ctx_ptr \<Rightarrow> ('v, 'h) world \<Rightarrow> ('v, 'h) world option" where
  "BindOnStackChanged func this w =
     (if s_Lock w then Some w
      else do { x \<leftarrow> ctx_at w this;
                Some (ctx_upd this (\<lambda>y. y\<lparr>m_OnStackChanged := func\<rparr>) w) })"

definition UnbindOnStackChanged :: "ctx_ptr \<Rightarrow> ('v, 'h) world \<Rightarrow> ('v, 'h) world option" where
  "UnbindOnStackChanged this w =
     do { x \<leftarrow> ctx_at w this;
          Some (ctx_upd this (\<lambda>y. y\<lparr>m_OnStackChanged := noop_lambda\<rparr>) w) }"

definition Clear :: "ctx_ptr \<Rightarrow> ('v, 'h) world \<Rightarrow> ('v, 'h) world option" where
  "Clear this w =
     (if s_Lock w then Some w
      else do { x \<leftarrow> ctx_at w this;
                fire_OnStackChanged this
                  (ctx_upd this (\<lambda>y. y\<lparr>m_PresentHistoryIdx := 0, m_HistoryStack := [None]\<rparr>) w) })"

subsection \<open>Undo and Redo\<close>

text \<open>
  \<open>call d args w\<close> is the host's delegate \<open>d\<close> applied to the stored arguments in
  the process state \<open>w\<close>: it returns the delegate's \<^verbatim>\<open>bool\<close> and the state it leaves.
  \<^verbatim>\<open>std::scoped_lock\<close> holds \<^verbatim>\<open>m_Mutex\<close> from its declaration to every return.
\<close>

type_synonym ('v, 'h) delegates =
  "nat \<Rightarrow> 'v list \<Rightarrow> ('v, 'h) world \<Rightarrow> (bool \<times> ('v, 'h) world) option"

definition Redo :: "('v, 'h) delegates \<Rightarrow> ctx_ptr \<Rightarrow> ('v, 'h) world \<Rightarrow> (bool \<times> ('v, 'h) world) option" where
  "Redo call this w =
     (if s_Lock w then Some (False, w)
      else do {
        x \<leftarrow> ctx_at w this;
        if m_Mutex x then None
        else if m_PresentHistoryIdx x = int (length (m_HistoryStack x)) - 1 then Some (False, w)
        else do {
          let w1 = ctx_upd this (\<lambda>y. y\<lparr>m_Mutex := True, m_IsRedoing := True\<rparr>) w;
          let w2 = ctx_upd this (\<lambda>y. y\<lparr>m_PresentHistoryIdx := m_PresentHistoryIdx y + 1\<rparr>) w1;
          q \<leftarrow> stack_at x (m_PresentHistoryIdx x + 1);
          p \<leftarrow> q;
          h \<leftarrow> hist_at w2 p;
          (result, w3) \<leftarrow> call (m_DoFunc h) (m_Params h) w2;
          x3 \<leftarrow> ctx_at w3 this;
          w4 \<leftarrow> fire_OnStackChanged this (ctx_upd this (\<lambda>y. y\<lparr>m_IsRedoing := False\<rparr>) w3);
          Some (result, ctx_upd this (\<lambda>y. y\<lparr>m_Mutex := False\<rparr>) w4) } })"

definition Undo :: "('v, 'h) delegates \<Rightarrow> ctx_ptr \<Rightarrow> ('v, 'h) world \<Rightarrow> (bool \<times> ('v, 'h) world) option" where
  "Undo call this w =
     (if s_Lock w then Some (False, w)
      else do {
        x \<leftarrow> ctx_at w this;
        if m_Mutex x then None
        else if m_PresentHistoryIdx x = 0 then Some (False, w)
        else do {
          let w1 = ctx_upd this (\<lambda>y. y\<lparr>m_Mutex := True, m_IsUndoing := True\<rparr>) w;
          q \<leftarrow> stack_at x (m_PresentHistoryIdx x);
          p \<leftarrow> q;
          h \<leftarrow> hist_at w1 p;
          (result, w2) \<leftarrow> call (m_UndoFunc h) (m_Params h) w1;
          x2 \<leftarrow> ctx_at w2 this;
          let w3 = ctx_upd this (\<lambda>y. y\<lparr>m_PresentHistoryIdx := m_PresentHistoryIdx y - 1\<rparr>) w2;
          w4 \<leftarrow> fire_OnStackChanged this (ctx_upd this (\<lambda>y. y\<lparr>m_IsUndoing := False\<rparr>) w3);
          Some (result, ctx_upd this (\<lambda>y. y\<lparr>m_Mutex := False\<rparr>) w4) } })"

section \<open>History: the global gate and the memento store\<close>

definition GetContext :: "('v, 'h) world \<Rightarrow> ctx_ptr option" where
  "GetContext w = s_Context w"

definition SetContext :: "ctx_ptr option \<Rightarrow> ('v, 'h) world \<Rightarrow> ('v, 'h) world" where
  "SetContext newContext w = w\<lparr>s_Context := newContext\<rparr>"

definition Disable :: "('v, 'h) world \<Rightarrow> ('v, 'h) world" where
  "Disable w = w\<lparr>s_Lock := True\<rparr>"

definition Enable :: "('v, 'h) world \<Rightarrow> ('v, 'h) world" where
  "Enable w = w\<lparr>s_Lock := False\<rparr>"

text \<open>
  The argument \<^verbatim>\<open>const T& value\<close> of \<^verbatim>\<open>Save<T>\<close>: a value of a type \<open>T\<close> other than
  \<^verbatim>\<open>std::any\<close>, with the name of \<open>T\<close>, or, when \<open>T\<close> is \<^verbatim>\<open>std::any\<close>, a \<^verbatim>\<open>std::any\<close> object.
\<close>

datatype 'v argument = value_of string 'v | any_object "'v any"

text \<open>
  What \<^verbatim>\<open>m_Data[key] = value\<close> leaves in the slot. The converting assignment of
  \<^verbatim>\<open>std::any\<close> stores a value of another type at that type; for a \<^verbatim>\<open>std::any\<close> it is the
  copy assignment, and the slot holds what the argument holds.
\<close>

fun assigned :: "'v argument \<Rightarrow> 'v any" where
  "assigned (value_of T v) = any_holds (type_named T) v"
| "assigned (any_object a) = a"

text \<open>
  \<^verbatim>\<open>Save<T>(key, value)\<close> returns the \<^verbatim>\<open>bool\<close> and the state; \<^verbatim>\<open>m_Data[key] = value\<close>
  inserts or overwrites.
\<close>

definition Save ::
  "string \<Rightarrow> 'v argument \<Rightarrow> hist_ptr \<Rightarrow> ('v, 'h) world \<Rightarrow> (bool \<times> ('v, 'h) world) option" where
  "Save key val this w =
     (if s_Lock w then Some (False, w)
      else do { busy \<leftarrow> IsUndoingOrRedoing w (sub_ctx this);
                if busy then Some (False, w)
                else do { h \<leftarrow> hist_at w this;
                          Some (True, hist_upd this
                                  (\<lambda>h. h\<lparr>m_Data := (m_Data h)(key \<mapsto> assigned val)\<rparr>) w) } })"

text \<open>
  \<^verbatim>\<open>std::string::find\<close>: the index of the first occurrence of \<open>pat\<close> in \<open>s\<close>, \<open>None\<close>
  for \<^verbatim>\<open>npos\<close>.
\<close>

fun find_str :: "string \<Rightarrow> string \<Rightarrow> nat option" where
  "find_str [] pat = (if pat = [] then Some 0 else None)"
| "find_str (c # cs) pat =
     (if take (length pat) (c # cs) = pat then Some 0
      else map_option Suc (find_str cs pat))"

text \<open>
  \<^verbatim>\<open>std::map::operator[]\<close>: the element under the key, inserted default-constructed
  when the key is absent.
\<close>

definition map_subscript :: "(string \<rightharpoonup> 'v any) \<Rightarrow> string \<Rightarrow> 'v any \<times> (string \<rightharpoonup> 'v any)" where
  "map_subscript m k =
     (case m k of None \<Rightarrow> (any_empty, m(k \<mapsto> any_empty)) | Some a \<Rightarrow> (a, m))"

text \<open>
  The key looked up by \<^verbatim>\<open>Load\<close>:
  \<^verbatim>\<open>id = key; it = id.find("_Undo"); if (it != npos) id.erase(it);\<close>
  (\<^verbatim>\<open>erase(it)\<close> removes everything from index \<open>it\<close> to the end).
\<close>

definition canonical_key :: "string \<Rightarrow> string" where
  "canonical_key key = (case find_str key ''_Undo'' of None \<Rightarrow> key | Some it \<Rightarrow> take it key)"

text \<open>
  \<^verbatim>\<open>Load<T>(key, output)\<close> returns how the call ended (the \<^verbatim>\<open>bool\<close>, or the exception
  that leaves it), the value of the reference \<^verbatim>\<open>output\<close> afterwards, and the state.
\<close>

definition Load ::
  "type_info \<Rightarrow> string \<Rightarrow> 'v \<Rightarrow> hist_ptr \<Rightarrow> ('v, 'h) world
     \<Rightarrow> ((exception + bool) \<times> 'v \<times> ('v, 'h) world) option" where
  "Load T key output this w =
     (if s_Lock w then Some (Inr False, output, w)
      else do {
        busy \<leftarrow> IsUndoingOrRedoing w (sub_ctx this);
        if \<not> busy then Some (Inr False, output, w)
        else do {
          h \<leftarrow> hist_at w this;
          let id = canonical_key key;
          if m_Data h id = None then Some (Inr False, output, w)
          else do {
            let (a, m) = map_subscript (m_Data h) id;
            let w1 = hist_upd this (\<lambda>h. h\<lparr>m_Data := m\<rparr>) w;
            case any_cast T a of
              Inl e \<Rightarrow> Some (Inl e, output, w1)
            | Inr v \<Rightarrow> Some (Inr True, v, w1) } } })"

section \<open>The scoped controllers\<close>

text \<open>
  A constructor changes the process state. A \<^verbatim>\<open>HistoryPushController\<close> has the one
  member \<^verbatim>\<open>active\<close>, initially true; its destructor takes the member's value and
  returns the new one with the state.
\<close>

definition HistoryPushController_ctor :: "('v, 'h) world \<Rightarrow> ('v, 'h) world option" where
  "HistoryPushController_ctor w =
     (if s_Lock w then Some w
      else do { c \<leftarrow> GetContext w;
                u \<leftarrow> IsUndoing w c;
                if u then Some w
                else do { q \<leftarrow> Present w c;
                          p \<leftarrow> q;
                          h \<leftarrow> hist_at w p;
                          Some (SetContext (Some (sub_ctx p)) w) } })"

definition HistoryPushController_dtor :: "bool \<Rightarrow> ('v, 'h) world \<Rightarrow> (bool \<times> ('v, 'h) world) option" where
  "HistoryPushController_dtor active w =
     (if s_Lock w then Some (active, w)
      else if \<not> active then Some (active, w)
      else do {
        c \<leftarrow> GetContext w;
        u \<leftarrow> IsUndoing w c;
        if u then Some (active, w)
        else do {
          up \<leftarrow> ParentContext w c;
          let w1 = SetContext up w;
          c1 \<leftarrow> GetContext w1;
          x1 \<leftarrow> ctx_at w1 c1;
          up1 \<leftarrow> ParentContext w1 c1;
          move \<leftarrow> (case up1 of
                     None \<Rightarrow> Some False
                   | Some _ \<Rightarrow>
                       do { r \<leftarrow> IsRedoing w1 c1;
                            Some (r \<and> m_PresentHistoryIdx x1 < int (length (m_HistoryStack x1)) - 1) });
          if move
          then Some (False, ctx_upd c1 (\<lambda>y. y\<lparr>m_PresentHistoryIdx := m_PresentHistoryIdx y + 1\<rparr>) w1)
          else do { r \<leftarrow> IsRedoing w1 c1;
                    if \<not> r then do { w2 \<leftarrow> fire_OnStackChanged c1 w1; Some (False, w2) }
                    else Some (False, w1) } } })"

definition HistoryPopController_ctor :: "('v, 'h) world \<Rightarrow> ('v, 'h) world option" where
  "HistoryPopController_ctor w =
     (if s_Lock w then Some w
      else do { c \<leftarrow> GetContext w;
                q \<leftarrow> Present w c;
                p \<leftarrow> q;
                h \<leftarrow> hist_at w p;
                Some (SetContext (Some (sub_ctx p)) w) })"

definition HistoryPopController_dtor :: "('v, 'h) world \<Rightarrow> ('v, 'h) world option" where
  "HistoryPopController_dtor w =
     (if s_Lock w then Some w
      else do {
        c \<leftarrow> GetContext w;
        up \<leftarrow> ParentContext w c;
        let w1 = SetContext up w;
        c1 \<leftarrow> GetContext w1;
        x1 \<leftarrow> ctx_at w1 c1;
        up1 \<leftarrow> ParentContext w1 c1;
        if up1 \<noteq> None \<and> m_PresentHistoryIdx x1 > 1
        then Some (ctx_upd c1 (\<lambda>y. y\<lparr>m_PresentHistoryIdx := m_PresentHistoryIdx y - 1\<rparr>) w1)
        else Some w1 })"

section \<open>The states in which Undo and Redo call the delegate\<close>

text \<open>
  \<open>Redo_entry c w\<close> is the state \<open>Redo\<close> on context \<open>c\<close> has reached when it calls the
  do delegate, \<open>Undo_entry c w\<close> the state \<open>Undo\<close> has reached when it calls the undo
  delegate. \<open>Redo_call\<close> and \<open>Undo_call\<close> are those calls alone.
\<close>

definition Redo_entry :: "ctx_ptr \<Rightarrow> ('v, 'h) world \<Rightarrow> ('v, 'h) world" where
  "Redo_entry c w =
     ctx_upd c (\<lambda>y. y\<lparr>m_Mutex := True, m_IsRedoing := True,
                         m_PresentHistoryIdx := m_PresentHistoryIdx y + 1\<rparr>) w"

definition Undo_entry :: "ctx_ptr \<Rightarrow> ('v, 'h) world \<Rightarrow> ('v, 'h) world" where
  "Undo_entry c w = ctx_upd c (\<lambda>y. y\<lparr>m_Mutex := True, m_IsUndoing := True\<rparr>) w"

definition Redo_call :: "('v, 'h) delegates \<Rightarrow> ctx_ptr \<Rightarrow> ('v, 'h) world \<Rightarrow> (bool \<times> ('v, 'h) world) option" where
  "Redo_call call c w =
     do { x \<leftarrow> ctx_at w c;
          q \<leftarrow> stack_at x (m_PresentHistoryIdx x + 1);
          p \<leftarrow> q;
          h \<leftarrow> hist_at w p;
          call (m_DoFunc h) (m_Params h) (Redo_entry c w) }"

definition Undo_call :: "('v, 'h) delegates \<Rightarrow> ctx_ptr \<Rightarrow> ('v, 'h) world \<Rightarrow> (bool \<times> ('v, 'h) world) option" where
  "Undo_call call c w =
     do { x \<leftarrow> ctx_at w c;
          q \<leftarrow> stack_at x (m_PresentHistoryIdx x);
          p \<leftarrow> q;
          h \<leftarrow> hist_at w p;
          call (m_UndoFunc h) (m_Params h) (Undo_entry c w) }"

text \<open>
  A delegate of a host that looks at the cursor: it returns whether the cursor of
  context \<open>c\<close> is \<open>i\<close> at the moment it runs, and changes nothing.
\<close>

definition cursor_probe :: "ctx_ptr \<Rightarrow> int \<Rightarrow> ('v, 'h) delegates" where
  "cursor_probe c i d args w =
     Some (map_option m_PresentHistoryIdx (ctx_at w c) = Some i, w)"

text \<open>The memento map \<^verbatim>\<open>m_Data\<close> of the record at \<open>p\<close>, if the record is live.\<close>

definition mementos :: "hist_ptr \<Rightarrow> ('v, 'h) world \<Rightarrow> (string \<rightharpoonup> 'v any) option" where
  "mementos p w = map_option m_Data (hist_at w p)"

section \<open>Sequences of public operations\<close>

datatype 'v operation =
    op_Push ctx_ptr string nat nat "'v list"
  | op_AbortPush ctx_ptr
  | op_Undo ctx_ptr
  | op_Redo ctx_ptr
  | op_Clear ctx_ptr
  | op_Save hist_ptr string "'v argument"
  | op_PushRelease bool
  | op_PopRelease

fun exec :: "('v, 'h) delegates \<Rightarrow> 'v operation \<Rightarrow> ('v, 'h) world \<Rightarrow> ('v, 'h) world option" where
  "exec call (op_Push c name d ud args) w = Push name d ud args c w"
| "exec call (op_AbortPush c) w = AbortPush c w"
| "exec call (op_Undo c) w = map_option snd (Undo call c w)"
| "exec call (op_Redo c) w = map_option snd (Redo call c w)"
| "exec call (op_Clear c) w = Clear c w"
| "exec call (op_Save p key val) w = map_option snd (Save key val p w)"
| "exec call (op_PushRelease active) w = map_option snd (HistoryPushController_dtor active w)"
| "exec call op_PopRelease w = HistoryPopController_dtor w"

fun exec_all :: "('v, 'h) delegates \<Rightarrow> 'v operation list \<Rightarrow> ('v, 'h) world \<Rightarrow> ('v, 'h) world option" where
  "exec_all call [] w = Some w"
| "exec_all call (x # xs) w = do { w' \<leftarrow> exec call x w; exec_all call xs w' }"

section \<open>The showcase host\<close>

text \<open>
  \<^verbatim>\<open>TrivialManager\<close> of the showcase: the host data is the vector \<^verbatim>\<open>objects\<close>. The
  macros are expanded: \<^verbatim>\<open>HISTORY_PUSH(f)\<close> asserts a context, pushes a record with the
  delegates of \<^verbatim>\<open>f\<close> and \<^verbatim>\<open>f_Undo\<close> and declares a push controller, \<^verbatim>\<open>HISTORY_POP()\<close>
  declares a pop controller; the controller is destroyed when the function returns.
  Delegate \<open>0\<close> is \<^verbatim>\<open>AddNewObject\<close>, delegate \<open>1\<close> is \<^verbatim>\<open>AddNewObject_Undo\<close>.
\<close>

definition AddNewObject :: "('v, int list) world \<Rightarrow> (bool \<times> ('v, int list) world) option" where
  "AddNewObject w =
     do { c \<leftarrow> GetContext w;
          w1 \<leftarrow> Push ''AddNewObject'' 0 1 [] c w;
          w2 \<leftarrow> HistoryPushController_ctor w1;
          let w3 = w2\<lparr>host := host w2 @ [0]\<rparr>;
          (active, w4) \<leftarrow> HistoryPushController_dtor True w3;
          Some (True, w4) }"

definition AddNewObject_Undo :: "('v, int list) world \<Rightarrow> (bool \<times> ('v, int list) world) option" where
  "AddNewObject_Undo w =
     do { w1 \<leftarrow> HistoryPopController_ctor w;
          w2 \<leftarrow> (if host w1 = [] then None else Some (w1\<lparr>host := butlast (host w1)\<rparr>));
          w3 \<leftarrow> HistoryPopController_dtor w2;
          Some (True, w3) }"

definition TrivialManager :: "('v, int list) delegates" where
  "TrivialManager d args w =
     (if d = 0 then AddNewObject w else if d = 1 then AddNewObject_Undo w else None)"



text \<open>
  \<^verbatim>\<open>ManagerBase::ManagerBase\<close>: a process with one context of the host, made the
  active one by \<^verbatim>\<open>History::SetContext(&context)\<close>.
\<close>

definition startup :: "'h \<Rightarrow> ('v, 'h) world" where
  "startup objects =
     SetContext (Some (host_ctx 0))
       \<lparr> s_Context = None, s_Lock = False, NewID_id = 0,
         host_contexts = [new_HistoryContext None], heap = [],
         notified = [], host = objects \<rparr>"

text \<open>The showcase process right after \<^verbatim>\<open>TrivialManager mgr;\<close>.\<close>

definition fresh_world :: "(int, int list) world" where
  "fresh_world = startup []"

text \<open>
  The same process when the host has bound the observer \<open>host_func 1\<close>, and its states
  after \<^verbatim>\<open>mgr.AddNewObject()\<close>, after the following \<^verbatim>\<open>Undo()\<close> and after the following
  \<^verbatim>\<open>Redo()\<close>.
\<close>

definition watched_context :: "hist_ptr option list \<Rightarrow> int \<Rightarrow> HistoryContext" where
  "watched_context stack present =
     \<lparr> m_HistoryStack = stack, m_PresentHistoryIdx = present,
       m_IsUndoing = False, m_IsRedoing = False,
       m_ParentContext = None, m_OnStackChanged = host_func 1, m_Mutex = False \<rparr>"

definition AddNewObject_record :: "int History" where
  "AddNewObject_record =
     \<lparr> m_Data = Map.empty, m_Label = ''AddNewObject'', m_ID = 1,
       m_SubContext = new_HistoryContext (Some (host_ctx 0)),
       m_Params = [], m_DoFunc = 0, m_UndoFunc = 1 \<rparr>"

definition watched_world :: "(int, int list) world" where
  "watched_world =
     \<lparr> s_Context = Some (host_ctx 0), s_Lock = False, NewID_id = 0,
       host_contexts = [watched_context [None] 0], heap = [],
       notified = [], host = [] \<rparr>"

definition added_world :: "(int, int list) world" where
  "added_world =
     \<lparr> s_Context = Some (host_ctx 0), s_Lock = False, NewID_id = 1,
       host_contexts = [watched_context [None, Some 0] 1],
       heap = [Some AddNewObject_record],
       notified = [(host_ctx 0, host_func 1, 1)], host = [0] \<rparr>"

definition undone_world :: "(int, int list) world" where
  "undone_world =
     \<lparr> s_Context = Some (host_ctx 0), s_Lock = False, NewID_id = 1,
       host_contexts = [watched_context [None, Some 0] 0],
       heap = [Some AddNewObject_record],
       notified = [(host_ctx 0, host_func 1, 1), (host_ctx 0, host_func 1, 0)], host = [] \<rparr>"

definition redone_world :: "(int, int list) world" where
  "redone_world =
     \<lparr> s_Context = Some (host_ctx 0), s_Lock = False, NewID_id = 1,
       host_contexts = [watched_context [None, Some 0] 1],
       heap = [Some AddNewObject_record],
       notified = [(host_ctx 0, host_func 1, 1), (host_ctx 0, host_func 1, 0),
                   (host_ctx 0, host_func 1, 1)],
       host = [0] \<rparr>"

text \<open>
  The state after \<^verbatim>\<open>AddNewObject()\<close> twice and \<^verbatim>\<open>Undo()\<close> once: the cursor stands on
  the first record and the second record is the redo tail.
\<close>

definition middle_world :: "(int, int list) world" where
  "middle_world =
     \<lparr> s_Context = Some (host_ctx 0), s_Lock = False, NewID_id = 2,
       host_contexts = [watched_context [None, Some 0, Some 1] 1],
       heap = [Some AddNewObject_record, Some (AddNewObject_record\<lparr>m_ID := 2\<rparr>)],
       notified = [(host_ctx 0, host_func 1, 1), (host_ctx 0, host_func 1, 2),
                   (host_ctx 0, host_func 1, 1)],
       host = [0] \<rparr>"

section \<open>The cursor invariant\<close>

definition cursor_in_range :: "HistoryContext \<Rightarrow> bool" where
  "cursor_in_range x \<longleftrightarrow>
     0 \<le> m_PresentHistoryIdx x \<and> m_PresentHistoryIdx x \<le> int (length (m_HistoryStack x)) - 1"

definition all_in_range :: "('v, 'h) world \<Rightarrow> bool" where
  "all_in_range w \<longleftrightarrow>
     list_all cursor_in_range (host_contexts w) \<and>
     list_all (\<lambda>cell. case cell of None \<Rightarrow> True | Some h \<Rightarrow> cursor_in_range (m_SubContext h))
       (heap w)"

section \<open>The parent chain\<close>

text \<open>
  \<open>rooted w c\<close>: the parent pointers lead from \<open>c\<close> through live contexts to a
  context without parent. \<open>flagged flag w c\<close>: \<open>c\<close> or one of its ancestors has the
  flag set.
\<close>

inductive rooted :: "('v, 'h) world \<Rightarrow> ctx_ptr \<Rightarrow> bool" for w where
  root: "ctx_at w c = Some x \<Longrightarrow> m_ParentContext x = None \<Longrightarrow> rooted w c"
| child: "ctx_at w c = Some x \<Longrightarrow> m_ParentContext x = Some up \<Longrightarrow> rooted w up \<Longrightarrow> rooted w c"

inductive flagged :: "(HistoryContext \<Rightarrow> bool) \<Rightarrow> ('v, 'h) world \<Rightarrow> ctx_ptr \<Rightarrow> bool" for flag w where
  self: "ctx_at w c = Some x \<Longrightarrow> flag x \<Longrightarrow> flagged flag w c"
| ancestor: "ctx_at w c = Some x \<Longrightarrow> m_ParentContext x = Some up \<Longrightarrow> flagged flag w up
             \<Longrightarrow> flagged flag w c"

code_pred rooted .

code_pred flagged .

section \<open>Concrete process states\<close>

text \<open>
  The state inside the do body of \<^verbatim>\<open>RemoveObject\<close> when it first runs, after
  \<^verbatim>\<open>HISTORY_PUSH(RemoveObject, key)\<close>: the record is on the stack of the host's
  context and the push controller has made the record's sub-context the active one.
\<close>

definition first_run :: "(int, unit) world" where
  "first_run =
     \<lparr> s_Context = Some (sub_ctx 0), s_Lock = False, NewID_id = 1,
       host_contexts =
         [(new_HistoryContext None)
            \<lparr>m_HistoryStack := [None, Some 0], m_PresentHistoryIdx := 1\<rparr>],
       heap = [Some \<lparr> m_Data = Map.empty, m_Label = ''RemoveObject'', m_ID = 1,
                      m_SubContext = new_HistoryContext (Some (host_ctx 0)),
                      m_Params = [], m_DoFunc = 0, m_UndoFunc = 1 \<rparr>],
       notified = [], host = () \<rparr>"

text \<open>
  The state inside the undo body of that record, after \<^verbatim>\<open>HISTORY_POP()\<close>, when the
  record holds the mementos \<open>saved\<close>: the host's context is undoing and holds its
  mutex, and the pop controller has made the record's sub-context the active one.
\<close>

definition replay :: "(string \<rightharpoonup> int any) \<Rightarrow> (int, unit) world" where
  "replay saved =
     \<lparr> s_Context = Some (sub_ctx 0), s_Lock = False, NewID_id = 1,
       host_contexts =
         [(new_HistoryContext None)
            \<lparr>m_HistoryStack := [None, Some 0], m_PresentHistoryIdx := 1,
             m_IsUndoing := True, m_Mutex := True\<rparr>],
       heap = [Some \<lparr> m_Data = saved, m_Label = ''RemoveObject'', m_ID = 1,
                      m_SubContext = new_HistoryContext (Some (host_ctx 0)),
                      m_Params = [], m_DoFunc = 0, m_UndoFunc = 1 \<rparr>],
       notified = [], host = () \<rparr>"

definition busy_world :: "(int, unit) world" where
  "busy_world = replay [''hOldValue<-RemoveObject'' \<mapsto> any_holds (type_named ''int'') 11]"

text \<open>A process whose gate is locked after the host has bound an observer.\<close>

definition locked_world :: "(int, int list) world" where
  "locked_world =
     \<lparr> s_Context = Some (host_ctx 0), s_Lock = True, NewID_id = 0,
       host_contexts = [(new_HistoryContext None)\<lparr>m_OnStackChanged := host_func 1\<rparr>],
       heap = [], notified = [], host = [] \<rparr>"

text \<open>
  The side condition of an operation for the cursor invariant. Undo and redo run a
  delegate of the host: the condition says what that run must leave. AbortPush
  removes a record: there must be one.
\<close>

fun admissible :: "('v, 'h) delegates \<Rightarrow> 'v operation \<Rightarrow> ('v, 'h) world \<Rightarrow> bool" where
  "admissible call (op_AbortPush c) w =
     (case ctx_at w c of None \<Rightarrow> True | Some x \<Rightarrow> 1 \<le> m_PresentHistoryIdx x)"
| "admissible call (op_Undo c) w =
     (case Undo_call call c w of
        None \<Rightarrow> True
      | Some (r, w_out) \<Rightarrow>
          all_in_range w_out \<and>
          (case ctx_at w_out c of None \<Rightarrow> True | Some y \<Rightarrow> 1 \<le> m_PresentHistoryIdx y))"
| "admissible call (op_Redo c) w =
     (case Redo_call call c w of None \<Rightarrow> True | Some (r, w_out) \<Rightarrow> all_in_range w_out)"
| "admissible call (op_Push c name d ud args) w = True"
| "admissible call (op_Clear c) w = True"
| "admissible call (op_Save p key val) w = True"
| "admissible call (op_PushRelease active) w = True"
| "admissible call op_PopRelease w = True"


text \<open>
  The state inside \<^verbatim>\<open>AddNewObject\<close> when it first runs, just before its push
  controller is destroyed.
\<close>

definition inside_world :: "(int, int list) world" where
  "inside_world =
     \<lparr> s_Context = Some (sub_ctx 0), s_Lock = False, NewID_id = 1,
       host_contexts = [watched_context [None, Some 0] 1],
       heap = [Some AddNewObject_record],
       notified = [], host = [0] \<rparr>"

text \<open>
  What the loop of \<^verbatim>\<open>PrePush\<close> needs of the elements \<open>ps\<close> it pops from the stack of
  context \<open>c\<close>: no record is named twice, every record named is live, and none of
  them embeds \<open>c\<close> itself.
\<close>

definition tail_deletable :: "('v, 'h) world \<Rightarrow> ctx_ptr \<Rightarrow> hist_ptr option list \<Rightarrow> bool" where
  "tail_deletable w c ps \<longleftrightarrow>
     distinct (List.map_filter id ps) \<and>
     list_all (\<lambda>q. case q of None \<Rightarrow> True
                    | Some p \<Rightarrow> hist_at w p \<noteq> None \<and> c \<noteq> sub_ctx p) ps"

section \<open>Properties\<close>

subsection \<open>Pointers\<close>

lemma hist_at_hist_upd_same:
  "hist_at w p = Some h \<Longrightarrow> hist_at (hist_upd p f w) p = Some (f h)"
  by (auto simp: hist_at_def hist_upd_def split: if_splits)

lemma hist_at_hist_upd_other:
  "p \<noteq> q \<Longrightarrow> hist_at (hist_upd p f w) q = hist_at w q"
  by (auto simp: hist_at_def hist_upd_def)

lemma ctx_at_ctx_upd_same:
  "ctx_at w c = Some x \<Longrightarrow> ctx_at (ctx_upd c f w) c = Some (f x)"
  by (cases c) (auto simp: hist_at_def hist_upd_def split: if_splits)

lemma ctx_at_ctx_upd_other:
  "c \<noteq> c' \<Longrightarrow> ctx_at (ctx_upd c f w) c' = ctx_at w c'"
  by (cases c; cases c') (auto simp: hist_at_def hist_upd_def)

lemma hist_at_frame [simp]:
  "hist_at (w\<lparr>notified := n\<rparr>) p = hist_at w p"
  "hist_at (w\<lparr>s_Context := a\<rparr>) p = hist_at w p"
  "hist_at (w\<lparr>host := b\<rparr>) p = hist_at w p"
  by (simp_all add: hist_at_def)

lemma ctx_at_frame [simp]:
  "ctx_at (w\<lparr>notified := n\<rparr>) c = ctx_at w c"
  "ctx_at (w\<lparr>s_Context := a\<rparr>) c = ctx_at w c"
  "ctx_at (w\<lparr>host := b\<rparr>) c = ctx_at w c"
  by (cases c; simp)+

lemma ctx_upd_frame [simp]:
  "s_Lock (ctx_upd c f w) = s_Lock w"
  "s_Context (ctx_upd c f w) = s_Context w"
  "notified (ctx_upd c f w) = notified w"
  "NewID_id (ctx_upd c f w) = NewID_id w"
  "host (ctx_upd c f w) = host w"
  by (cases c; simp add: hist_upd_def)+

subsection \<open>The walk up the parent chain returns on a rooted chain\<close>

lemma IsUndoing_walk:
  assumes "\<not> s_Lock w" and "rooted w c"
  shows "IsUndoing w c = Some (flagged m_IsUndoing w c)"
  using assms(2)
proof (induction rule: rooted.induct)
  case (root c x)
  have "flagged m_IsUndoing w c \<longleftrightarrow> m_IsUndoing x"
    using root by (auto elim: flagged.cases intro: flagged.self)
  with root assms(1) show ?case
    by (subst IsUndoing.simps) (simp add: ParentContext_def)
next
  case (child c x up)
  have "flagged m_IsUndoing w c \<longleftrightarrow> m_IsUndoing x \<or> flagged m_IsUndoing w up"
    using child.hyps by (auto elim: flagged.cases intro: flagged.self flagged.ancestor)
  with child assms(1) show ?case
    by (subst IsUndoing.simps) (simp add: ParentContext_def)
qed

lemma IsRedoing_walk:
  assumes "\<not> s_Lock w" and "rooted w c"
  shows "IsRedoing w c = Some (flagged m_IsRedoing w c)"
  using assms(2)
proof (induction rule: rooted.induct)
  case (root c x)
  have "flagged m_IsRedoing w c \<longleftrightarrow> m_IsRedoing x"
    using root by (auto elim: flagged.cases intro: flagged.self)
  with root assms(1) show ?case
    by (subst IsRedoing.simps) (simp add: ParentContext_def)
next
  case (child c x up)
  have "flagged m_IsRedoing w c \<longleftrightarrow> m_IsRedoing x \<or> flagged m_IsRedoing w up"
    using child.hyps by (auto elim: flagged.cases intro: flagged.self flagged.ancestor)
  with child assms(1) show ?case
    by (subst IsRedoing.simps) (simp add: ParentContext_def)
qed

lemma IsUndoingOrRedoing_walk:
  assumes "\<not> s_Lock w" and "rooted w c"
  shows "IsUndoingOrRedoing w c = Some (flagged m_IsUndoing w c \<or> flagged m_IsRedoing w c)"
  using assms by (simp add: IsUndoingOrRedoing_def IsUndoing_walk IsRedoing_walk)

lemma replay_rooted: "rooted (replay saved) (sub_ctx 0)"
  by (rule rooted.child [where up = "host_ctx 0"],
      simp add: replay_def hist_at_def, simp add: new_HistoryContext_def,
      rule rooted.root, simp add: replay_def, simp add: new_HistoryContext_def)

lemma replay_flagged: "flagged m_IsUndoing (replay saved) (sub_ctx 0)"
  by (rule flagged.ancestor [where up = "host_ctx 0"],
      simp add: replay_def hist_at_def, simp add: new_HistoryContext_def,
      rule flagged.self, simp add: replay_def, simp add: new_HistoryContext_def)

lemma replay_IsUndoingOrRedoing: "IsUndoingOrRedoing (replay saved) (sub_ctx 0) = Some True"
  using IsUndoingOrRedoing_walk [OF _ replay_rooted] replay_flagged by (simp add: replay_def)

lemma busy_rooted: "rooted busy_world (sub_ctx 0)"
  unfolding busy_world_def by (rule replay_rooted)

lemma busy_flagged: "flagged m_IsUndoing busy_world (sub_ctx 0)"
  unfolding busy_world_def by (rule replay_flagged)

lemma first_run_idle: "IsUndoingOrRedoing first_run (sub_ctx 0) = Some False"
  by (simp add: IsUndoingOrRedoing_def IsUndoing.simps IsRedoing.simps ParentContext_def
      first_run_def hist_at_def new_HistoryContext_def)

subsection \<open>The phase guard of push and save\<close>

lemma busy_root_rooted: "rooted busy_world (host_ctx 0)"
  by (rule rooted.root, simp add: busy_world_def replay_def, simp add: new_HistoryContext_def)

lemma busy_root_flagged: "flagged m_IsUndoing busy_world (host_ctx 0)"
  by (rule flagged.self, simp add: busy_world_def replay_def, simp add: new_HistoryContext_def)

text \<open>
  C6. Two statements, each on its own. Push on a context that has \<^verbatim>\<open>m_IsUndoing\<close> or
  \<^verbatim>\<open>m_IsRedoing\<close> set, or an ancestor of which has, returns with the whole process
  state unchanged: stack, cursor and memento maps are as before. Push is a \<^verbatim>\<open>void\<close>
  function: it returns no value, so there is no \<^verbatim>\<open>false\<close> for it to return. Save on a
  record whose sub-context has \<^verbatim>\<open>m_IsUndoing\<close> or \<^verbatim>\<open>m_IsRedoing\<close> set, or an ancestor of
  which has, returns false with the whole process state unchanged.
\<close>

theorem phase_guard:
  "(rooted w c \<and> (flagged m_IsUndoing w c \<or> flagged m_IsRedoing w c)
      \<longrightarrow> Push name d ud args c w = Some w)
   \<and> (rooted v (sub_ctx p)
        \<and> (flagged m_IsUndoing v (sub_ctx p) \<or> flagged m_IsRedoing v (sub_ctx p))
      \<longrightarrow> Save key val p v = Some (False, v))"
proof (intro conjI impI; elim conjE)
  assume "rooted w c" and "flagged m_IsUndoing w c \<or> flagged m_IsRedoing w c"
  then show "Push name d ud args c w = Some w"
    by (cases "s_Lock w") (simp_all add: Push_def IsUndoingOrRedoing_walk)
next
  assume "rooted v (sub_ctx p)"
    and "flagged m_IsUndoing v (sub_ctx p) \<or> flagged m_IsRedoing v (sub_ctx p)"
  then show "Save key val p v = Some (False, v)"
    by (cases "s_Lock v") (simp_all add: Save_def IsUndoingOrRedoing_walk)
qed

theorem phase_guard_witness:
  "rooted busy_world (host_ctx 0) \<and> flagged m_IsUndoing busy_world (host_ctx 0)
   \<and> Push ''SetObject'' 4 5 [11] (host_ctx 0) busy_world = Some busy_world
   \<and> rooted busy_world (sub_ctx 0) \<and> flagged m_IsUndoing busy_world (sub_ctx 0)
   \<and> Save ''hOldValue<-RemoveObject'' (value_of ''int'' 11) 0 busy_world
       = Some (False, busy_world)"
proof -
  note guard = phase_guard [where w = busy_world and c = "host_ctx 0" and name = "''SetObject''"
      and d = 4 and ud = 5 and args = "[11]" and v = busy_world and p = 0
      and key = "''hOldValue<-RemoveObject''" and val = "value_of ''int'' 11"]
  from guard [THEN conjunct1, rule_format] busy_root_rooted busy_root_flagged
  have push: "Push ''SetObject'' 4 5 [11] (host_ctx 0) busy_world = Some busy_world"
    by blast
  from guard [THEN conjunct2, rule_format] busy_rooted busy_flagged
  have save: "Save ''hOldValue<-RemoveObject'' (value_of ''int'' 11) 0 busy_world
       = Some (False, busy_world)"
    by blast
  from busy_root_rooted busy_root_flagged push busy_rooted busy_flagged save
  show ?thesis by (intro conjI)
qed

subsection \<open>The locked gate\<close>

lemma exec_locked: "s_Lock w \<Longrightarrow> exec call x w = Some w"
  by (cases x)
     (simp_all add: Push_def AbortPush_def Undo_def Redo_def Clear_def Save_def
        HistoryPushController_dtor_def HistoryPopController_dtor_def)

text \<open>
  C7. While the gate is locked, a sequence of push, abortPush, undo, redo, clear and
  save (and of controller releases), on any contexts and records and with any
  delegates, returns and leaves the process state as it was: no stack and no cursor
  changes.
\<close>

theorem gate_locked_frame:
  "s_Lock w \<Longrightarrow> exec_all call ops w = Some w"
  by (induction ops) (simp_all add: exec_locked)

theorem gate_locked_frame_witness:
  "s_Lock locked_world \<and>
   exec_all TrivialManager
     [op_Push (host_ctx 0) ''AddNewObject'' 0 1 [], op_Undo (host_ctx 0), op_Redo (host_ctx 0),
      op_Save 0 ''hOldValue'' (value_of ''int'' 11), op_AbortPush (host_ctx 0), op_Clear (host_ctx 0)]
     locked_world = Some locked_world"
  using gate_locked_frame [of locked_world TrivialManager
      "[op_Push (host_ctx 0) ''AddNewObject'' 0 1 [], op_Undo (host_ctx 0), op_Redo (host_ctx 0),
        op_Save 0 ''hOldValue'' (value_of ''int'' 11), op_AbortPush (host_ctx 0), op_Clear (host_ctx 0)]"]
  by (simp add: locked_world_def)

subsection \<open>Binding the observer\<close>

text \<open>
  C10. While the gate is locked, BindOnStackChanged returns without registering the
  observer (the state, and with it the previous observer, is unchanged), whereas
  UnbindOnStackChanged still resets the observer of the context to the no-op default.
\<close>

theorem bind_unbind_under_lock:
  assumes "s_Lock w" and "ctx_at w c = Some x"
  shows "BindOnStackChanged func c w = Some w \<and>
         (\<exists>w'. UnbindOnStackChanged c w = Some w' \<and>
               ctx_at w' c = Some (x\<lparr>m_OnStackChanged := noop_lambda\<rparr>) \<and> s_Lock w')"
  using assms
  by (simp add: BindOnStackChanged_def UnbindOnStackChanged_def ctx_at_ctx_upd_same)

theorem bind_unbind_under_lock_witness:
  "s_Lock locked_world \<and>
   map_option m_OnStackChanged (ctx_at locked_world (host_ctx 0)) = Some (host_func 1) \<and>
   BindOnStackChanged (host_func 2) (host_ctx 0) locked_world = Some locked_world \<and>
   (\<exists>w'. UnbindOnStackChanged (host_ctx 0) locked_world = Some w' \<and>
         map_option m_OnStackChanged (ctx_at w' (host_ctx 0)) = Some noop_lambda \<and> s_Lock w')"
  using bind_unbind_under_lock [of locked_world "host_ctx 0"
      "(new_HistoryContext None)\<lparr>m_OnStackChanged := host_func 1\<rparr>" "host_func 2"]
  by (auto simp: locked_world_def)

subsection \<open>Present and the sentinel\<close>

lemma Undo_at_bottom:
  "ctx_at w c = Some x \<Longrightarrow> \<not> m_Mutex x \<Longrightarrow> m_PresentHistoryIdx x = 0
     \<Longrightarrow> Undo call c w = Some (False, w)"
  by (simp add: Undo_def)

lemma Clear_then_Present:
  "ctx_at w c = Some x \<Longrightarrow> \<exists>w'. Clear c w = Some w' \<and> Present w' c = Some None"
  by (cases "s_Lock w")
     (simp_all add: Clear_def Present_def fire_OnStackChanged_def ctx_at_ctx_upd_same
        stack_at_def)

text \<open>
  C1, amended. Present returns the element at index \<^verbatim>\<open>m_PresentHistoryIdx\<close> of the stack,
  and the null pointer when the gate is locked. The sentinel at index 0 of a
  constructed or cleared context is the null pointer, not a record: there Present
  returns the null pointer at cursor 0. Undo at cursor 0 returns false and calls
  no delegate.
\<close>

theorem Present_returns_slot:
  assumes "ctx_at w c = Some x" and "cursor_in_range x"
  shows "Present w c = (if s_Lock w then Some None
                        else Some (m_HistoryStack x ! nat (m_PresentHistoryIdx x)))
       \<and> stack_at (new_HistoryContext up) (m_PresentHistoryIdx (new_HistoryContext up)) = Some None
       \<and> (\<exists>w'. Clear c w = Some w' \<and> Present w' c = Some None)
       \<and> (m_PresentHistoryIdx x = 0 \<and> \<not> m_Mutex x \<longrightarrow> Undo call c w = Some (False, w))"
proof -
  have "Present w c = (if s_Lock w then Some None
                       else Some (m_HistoryStack x ! nat (m_PresentHistoryIdx x)))"
    using assms by (simp add: Present_def stack_at_def cursor_in_range_def)
  moreover have "stack_at (new_HistoryContext up) (m_PresentHistoryIdx (new_HistoryContext up))
      = Some None"
    by (simp add: stack_at_def new_HistoryContext_def)
  moreover have "\<exists>w'. Clear c w = Some w' \<and> Present w' c = Some None"
    using assms(1) by (rule Clear_then_Present)
  moreover have "m_PresentHistoryIdx x = 0 \<and> \<not> m_Mutex x \<longrightarrow> Undo call c w = Some (False, w)"
    using assms(1) by (auto simp: Undo_at_bottom)
  ultimately show ?thesis by blast
qed

theorem Present_returns_slot_witness:
  "ctx_at fresh_world (host_ctx 0) = Some (new_HistoryContext None)
   \<and> cursor_in_range (new_HistoryContext None)
   \<and> Present fresh_world (host_ctx 0) = Some None
   \<and> (\<exists>w'. Clear (host_ctx 0) fresh_world = Some w' \<and> Present w' (host_ctx 0) = Some None)
   \<and> Undo TrivialManager (host_ctx 0) fresh_world = Some (False, fresh_world)"
proof -
  have live: "ctx_at fresh_world (host_ctx 0) = Some (new_HistoryContext None)"
    by (simp add: fresh_world_def startup_def SetContext_def)
  have range: "cursor_in_range (new_HistoryContext None)"
    by (simp add: cursor_in_range_def new_HistoryContext_def)
  have unlocked: "\<not> s_Lock fresh_world"
    by (simp add: fresh_world_def startup_def SetContext_def)
  have bottom: "m_PresentHistoryIdx (new_HistoryContext None) = 0 \<and>
      \<not> m_Mutex (new_HistoryContext None) \<and> m_HistoryStack (new_HistoryContext None) ! nat 0 = None"
    by (simp add: new_HistoryContext_def)
  from Present_returns_slot [OF live range, of None TrivialManager] live range unlocked bottom
  show ?thesis by (simp del: ctx_at.simps)
qed

theorem Present_sentinel_counterexample:
  "map_option m_PresentHistoryIdx (ctx_at fresh_world (host_ctx 0)) = Some 0
   \<and> \<not> s_Lock fresh_world
   \<and> Present fresh_world (host_ctx 0) = Some None"
  by (simp add: fresh_world_def startup_def SetContext_def Present_def stack_at_def
      new_HistoryContext_def)

subsection \<open>The memento store\<close>

lemma take_Undo_boundary:
  assumes "take (length ''_Undo'') (c # cs) \<noteq> ''_Undo''"
  shows "take (length ''_Undo'') ((c # cs) @ ''_Undo'') \<noteq> ''_Undo''"
proof (cases "4 \<le> length cs")
  case True
  then show ?thesis using assms by simp
next
  case False
  then have "length cs < 4" by simp
  then consider "cs = []" | a where "cs = [a]" | a b where "cs = [a, b]"
    | a b d where "cs = [a, b, d]"
    by (cases cs; cases "tl cs"; cases "tl (tl cs)"; cases "tl (tl (tl cs))") auto
  then show ?thesis by cases auto
qed

lemma find_str_append_Undo:
  "find_str K ''_Undo'' = None \<Longrightarrow> find_str (K @ ''_Undo'') ''_Undo'' = Some (length K)"
proof (induction K)
  case Nil
  show ?case by simp
next
  case (Cons c cs)
  have no: "take (length ''_Undo'') (c # cs) \<noteq> ''_Undo''"
  proof
    assume "take (length ''_Undo'') (c # cs) = ''_Undo''"
    then have "find_str (c # cs) ''_Undo'' = Some 0"
      by (simp only: find_str.simps simp_thms if_True)
    with Cons.prems show False by simp
  qed
  with Cons.prems have "map_option Suc (find_str cs ''_Undo'') = None"
    by (simp only: find_str.simps if_False)
  then have rest: "find_str cs ''_Undo'' = None"
    by simp
  have "find_str ((c # cs) @ ''_Undo'') ''_Undo''
      = map_option Suc (find_str (cs @ ''_Undo'') ''_Undo'')"
    using take_Undo_boundary [OF no] by (simp only: append_Cons find_str.simps if_False)
  with Cons.IH [OF rest] show ?case by simp
qed

lemma canonical_key_append_Undo:
  "find_str K ''_Undo'' = None \<Longrightarrow> canonical_key (K @ ''_Undo'') = K"
  by (simp add: canonical_key_def find_str_append_Undo)

lemma hist_upd_const_data:
  "hist_at w p = Some h \<Longrightarrow> hist_upd p (\<lambda>k. k\<lparr>m_Data := m_Data h\<rparr>) w = w"
  by (auto simp: hist_upd_def hist_at_def list_update_same_conv split: if_splits)

lemma Load_found:
  assumes "\<not> s_Lock w" and "IsUndoingOrRedoing w (sub_ctx p) = Some True"
    and "hist_at w p = Some h" and "m_Data h (canonical_key key) = Some a"
  shows "Load T key out p w =
           (case any_cast T a of Inl e \<Rightarrow> Some (Inl e, out, w) | Inr v \<Rightarrow> Some (Inr True, v, w))"
  using assms by (simp add: Load_def map_subscript_def hist_upd_const_data)

lemma Load_absent:
  assumes "\<not> s_Lock w" and "IsUndoingOrRedoing w (sub_ctx p) = Some True"
    and "hist_at w p = Some h" and "m_Data h (canonical_key key) = None"
  shows "Load T key out p w = Some (Inr False, out, w)"
  using assms by (simp add: Load_def)

lemma replay_record:
  "\<exists>h. hist_at (replay saved) 0 = Some h \<and> m_Data h = saved"
  by (simp add: replay_def hist_at_def)

text \<open>
  C2, amended. With the gate unlocked and the record's sub-context undoing or
  redoing, Load on a key whose slot holds a value of a type other than the requested
  one does not return false: \<^verbatim>\<open>std::any_cast\<close> throws \<^verbatim>\<open>std::bad_any_cast\<close> and the
  exception leaves Load. The stored value, the memento map and \<^verbatim>\<open>output\<close> are as
  before.
\<close>

theorem Load_type_mismatch:
  assumes "\<not> s_Lock w" and "IsUndoingOrRedoing w (sub_ctx p) = Some True"
    and "hist_at w p = Some h" and "m_Data h (canonical_key key) = Some (any_holds U v)"
    and "U \<noteq> T"
  shows "Load T key out p w = Some (Inl bad_any_cast, out, w)"
  using assms by (simp add: Load_found)

theorem Load_type_mismatch_witness:
  "\<not> s_Lock busy_world \<and> IsUndoingOrRedoing busy_world (sub_ctx 0) = Some True
   \<and> (\<exists>h. hist_at busy_world 0 = Some h
          \<and> m_Data h (canonical_key ''hOldValue<-RemoveObject_Undo'') = Some (any_holds (type_named ''int'') 11))
   \<and> type_named ''int'' \<noteq> type_named ''std::set<int>''
   \<and> Load (type_named ''std::set<int>'') ''hOldValue<-RemoveObject_Undo'' 0 0 busy_world
       = Some (Inl bad_any_cast, 0, busy_world)"
proof -
  have key: "canonical_key ''hOldValue<-RemoveObject_Undo'' = ''hOldValue<-RemoveObject''"
    by (simp add: canonical_key_def)
  obtain h where h: "hist_at busy_world 0 = Some h"
    and data: "m_Data h = [''hOldValue<-RemoveObject'' \<mapsto> any_holds (type_named ''int'') 11]"
    using replay_record unfolding busy_world_def by blast
  have slot: "m_Data h (canonical_key ''hOldValue<-RemoveObject_Undo'') = Some (any_holds (type_named ''int'') 11)"
    unfolding key data by simp
  have unlocked: "\<not> s_Lock busy_world"
    by (simp add: busy_world_def replay_def)
  have busy: "IsUndoingOrRedoing busy_world (sub_ctx 0) = Some True"
    unfolding busy_world_def by (rule replay_IsUndoingOrRedoing)
  have differ: "type_named ''int'' \<noteq> type_named ''std::set<int>''" by simp
  from Load_type_mismatch [OF unlocked busy h slot differ, of 0] unlocked busy h slot differ
  show ?thesis by blast
qed

theorem Load_type_mismatch_counterexample:
  "Load (type_named ''std::set<int>'') ''hOldValue<-RemoveObject_Undo'' 0 0 busy_world
     = Some (Inl bad_any_cast, 0, busy_world)"
proof -
  have key: "canonical_key ''hOldValue<-RemoveObject_Undo'' = ''hOldValue<-RemoveObject''"
    by (simp add: canonical_key_def)
  obtain h where h: "hist_at busy_world 0 = Some h"
    and data: "m_Data h = [''hOldValue<-RemoveObject'' \<mapsto> any_holds (type_named ''int'') 11]"
    using replay_record unfolding busy_world_def by blast
  have "m_Data h (canonical_key ''hOldValue<-RemoveObject_Undo'') = Some (any_holds (type_named ''int'') 11)"
    unfolding key data by simp
  moreover have "\<not> s_Lock busy_world"
    by (simp add: busy_world_def replay_def)
  moreover have "IsUndoingOrRedoing busy_world (sub_ctx 0) = Some True"
    unfolding busy_world_def by (rule replay_IsUndoingOrRedoing)
  ultimately show ?thesis
    using h by (simp add: Load_found)
qed

lemma first_run_Save:
  "\<exists>w1. Save K a 0 first_run = Some (True, w1) \<and> mementos 0 w1 = Some [K \<mapsto> assigned a]"
  by (simp add: Save_def first_run_idle mementos_def,
      simp add: first_run_def hist_at_def hist_upd_def)

lemma busy_mementos:
  "mementos 0 busy_world = Some [''hOldValue<-RemoveObject'' \<mapsto> any_holds (type_named ''int'') 11]"
  by (simp add: mementos_def busy_world_def replay_def hist_at_def)

text \<open>
  C5, amended. For every key \<open>K\<close> that does not contain \<^verbatim>\<open>_Undo\<close>, and every value of a
  type \<open>T\<close> other than \<^verbatim>\<open>std::any\<close>: when Save of the value under \<open>K\<close> has returned true,
  Load of \<open>K\<close> followed by \<^verbatim>\<open>_Undo\<close>, at the type \<open>T\<close>, on the record with its mementos
  as Save left them, with the gate unlocked and the record's sub-context undoing or
  redoing, returns true and puts the value in \<^verbatim>\<open>output\<close>.
\<close>

theorem save_then_load_Undo_key:
  assumes "find_str K ''_Undo'' = None"
    and "Save K (value_of T v) p w = Some (True, w1)"
    and "mementos p w2 = mementos p w1"
    and "\<not> s_Lock w2" and "IsUndoingOrRedoing w2 (sub_ctx p) = Some True"
  shows "Load (type_named T) (K @ ''_Undo'') out p w2 = Some (Inr True, v, w2)"
proof -
  from assms(2) obtain h where h: "hist_at w p = Some h"
    and w1: "w1 = hist_upd p (\<lambda>h. h\<lparr>m_Data := (m_Data h)(K \<mapsto> any_holds (type_named T) v)\<rparr>) w"
    by (auto simp: Save_def Option.bind_eq_Some_conv split: if_splits)
  from h w1
  have "hist_at w1 p = Some (h\<lparr>m_Data := (m_Data h)(K \<mapsto> any_holds (type_named T) v)\<rparr>)"
    by (simp add: hist_at_hist_upd_same)
  with assms(3) obtain h2 where h2: "hist_at w2 p = Some h2"
    and data: "m_Data h2 = (m_Data h)(K \<mapsto> any_holds (type_named T) v)"
    by (auto simp: mementos_def)
  from data assms(1)
  have "m_Data h2 (canonical_key (K @ ''_Undo'')) = Some (any_holds (type_named T) v)"
    by (simp add: canonical_key_append_Undo)
  with assms(4,5) h2 show ?thesis
    by (simp add: Load_found)
qed

theorem save_then_load_Undo_key_witness:
  "find_str ''hOldValue<-RemoveObject'' ''_Undo'' = None
   \<and> (\<exists>w1. Save ''hOldValue<-RemoveObject'' (value_of ''int'' 11) 0 first_run = Some (True, w1)
          \<and> mementos 0 busy_world = mementos 0 w1)
   \<and> \<not> s_Lock busy_world \<and> IsUndoingOrRedoing busy_world (sub_ctx 0) = Some True
   \<and> Load (type_named ''int'') (''hOldValue<-RemoveObject'' @ ''_Undo'') 0 0 busy_world
       = Some (Inr True, 11, busy_world)"
proof -
  have none: "find_str ''hOldValue<-RemoveObject'' ''_Undo'' = None"
    by simp
  obtain w1 where
    saved: "Save ''hOldValue<-RemoveObject'' (value_of ''int'' 11) 0 first_run = Some (True, w1)"
    and data: "mementos 0 w1
        = Some [''hOldValue<-RemoveObject'' \<mapsto> assigned (value_of ''int'' 11)]"
    using first_run_Save by blast
  have same: "mementos 0 busy_world = mementos 0 w1"
    unfolding data busy_mementos by simp
  have unlocked: "\<not> s_Lock busy_world"
    by (simp add: busy_world_def replay_def)
  have busy: "IsUndoingOrRedoing busy_world (sub_ctx 0) = Some True"
    unfolding busy_world_def by (rule replay_IsUndoingOrRedoing)
  from save_then_load_Undo_key [OF none saved same unlocked busy, of 0]
    none saved same unlocked busy
  show ?thesis by blast
qed

text \<open>
  A value of type \<^verbatim>\<open>std::any\<close>, here one that holds the \<^verbatim>\<open>int\<close> 11: Save returns true and
  leaves in the slot what the argument holds, an \<^verbatim>\<open>int\<close>; the record at replay has
  these mementos; Load at the type of the value saved, \<^verbatim>\<open>std::any\<close>, does not return:
  \<^verbatim>\<open>std::any_cast\<close> throws.
\<close>

theorem save_then_load_Undo_key_counterexample:
  "map_option fst
       (Save ''hOldValue<-RemoveObject'' (any_object (any_holds (type_named ''int'') 11)) 0 first_run)
     = Some True
   \<and> map_option (mementos 0 \<circ> snd)
       (Save ''hOldValue<-RemoveObject'' (any_object (any_holds (type_named ''int'') 11)) 0 first_run)
     = Some (mementos 0 busy_world)
   \<and> Load std_any (''hOldValue<-RemoveObject'' @ ''_Undo'') 0 0 busy_world
     = Some (Inl bad_any_cast, 0, busy_world)"
proof -
  obtain w1 where
    saved: "Save ''hOldValue<-RemoveObject'' (any_object (any_holds (type_named ''int'') 11)) 0 first_run
        = Some (True, w1)"
    and data: "mementos 0 w1 = Some [''hOldValue<-RemoveObject''
        \<mapsto> assigned (any_object (any_holds (type_named ''int'') 11))]"
    using first_run_Save by blast
  have same: "mementos 0 w1 = mementos 0 busy_world"
    unfolding data busy_mementos by simp
  have key: "canonical_key (''hOldValue<-RemoveObject'' @ ''_Undo'') = ''hOldValue<-RemoveObject''"
    by (simp add: canonical_key_def)
  obtain h where h: "hist_at busy_world 0 = Some h"
    and hdata: "m_Data h = [''hOldValue<-RemoveObject'' \<mapsto> any_holds (type_named ''int'') 11]"
    using replay_record unfolding busy_world_def by blast
  have slot: "m_Data h (canonical_key (''hOldValue<-RemoveObject'' @ ''_Undo''))
      = Some (any_holds (type_named ''int'') 11)"
    unfolding key hdata by simp
  have unlocked: "\<not> s_Lock busy_world"
    by (simp add: busy_world_def replay_def)
  have busy: "IsUndoingOrRedoing busy_world (sub_ctx 0) = Some True"
    unfolding busy_world_def by (rule replay_IsUndoingOrRedoing)
  have load: "Load std_any (''hOldValue<-RemoveObject'' @ ''_Undo'') 0 0 busy_world
      = Some (Inl bad_any_cast, 0, busy_world)"
    using unlocked busy h slot by (simp add: Load_found)
  from saved same load show ?thesis by simp
qed

text \<open>
  A key that itself contains \<^verbatim>\<open>_Undo\<close> is outside the theorem. At the key
  \<^verbatim>\<open>hOld_Undo_Value\<close> Save returns true and stores under the key as given, and Load of
  the key followed by \<^verbatim>\<open>_Undo\<close> returns false.
\<close>

lemma Load_key_containing_Undo:
  "map_option fst (Save ''hOld_Undo_Value'' (value_of ''int'' 11) 0 first_run) = Some True
   \<and> map_option fst (Load (type_named ''int'') (''hOld_Undo_Value'' @ ''_Undo'') 0 0
                      (replay [''hOld_Undo_Value'' \<mapsto> any_holds (type_named ''int'') 11]))
       = Some (Inr False)"
proof -
  obtain w1 where "Save ''hOld_Undo_Value'' (value_of ''int'' 11) 0 first_run = Some (True, w1)"
    using first_run_Save by blast
  then have saved:
    "map_option fst (Save ''hOld_Undo_Value'' (value_of ''int'' 11) 0 first_run) = Some True"
    by simp
  have key: "canonical_key (''hOld_Undo_Value'' @ ''_Undo'') = ''hOld''"
    by (simp add: canonical_key_def)
  obtain h where h: "hist_at (replay [''hOld_Undo_Value'' \<mapsto> any_holds (type_named ''int'') 11]) 0 = Some h"
    and data: "m_Data h = [''hOld_Undo_Value'' \<mapsto> any_holds (type_named ''int'') 11]"
    using replay_record by blast
  have absent: "m_Data h (canonical_key (''hOld_Undo_Value'' @ ''_Undo'')) = None"
    unfolding key data by simp
  have unlocked: "\<not> s_Lock (replay [''hOld_Undo_Value'' \<mapsto> any_holds (type_named ''int'') 11])"
    by (simp add: replay_def)
  have "Load (type_named ''int'') (''hOld_Undo_Value'' @ ''_Undo'') 0 0
                 (replay [''hOld_Undo_Value'' \<mapsto> any_holds (type_named ''int'') 11])
               = Some (Inr False, 0, replay [''hOld_Undo_Value'' \<mapsto> any_holds (type_named ''int'') 11])"
    using unlocked replay_IsUndoingOrRedoing h absent by (rule Load_absent)
  with saved show ?thesis by simp
qed

subsection \<open>Running the showcase\<close>

lemmas run_defs = SetContext_def GetContext_def new_HistoryContext_def
  Push_def PrePush_def new_HistoryWithParams_def IsUndoingOrRedoing_def ParentContext_def
  Present_def stack_at_def hist_at_def hist_upd_def fire_OnStackChanged_def
  HistoryPushController_ctor_def HistoryPushController_dtor_def
  HistoryPopController_ctor_def HistoryPopController_dtor_def
  AddNewObject_def AddNewObject_Undo_def TrivialManager_def Undo_def Redo_def
  AbortPush_def Clear_def delete_History_def
  IsUndoing.simps IsRedoing.simps PrePush_loop.simps

lemmas showcase_defs = watched_world_def added_world_def undone_world_def redone_world_def
  watched_context_def AddNewObject_record_def

lemma showcase_bind: "BindOnStackChanged (host_func 1) (host_ctx 0) fresh_world = Some watched_world"
  by (simp add: BindOnStackChanged_def fresh_world_def startup_def run_defs showcase_defs)

lemma showcase_add: "AddNewObject watched_world = Some (True, added_world)"
  by (simp add: run_defs showcase_defs)

lemma showcase_undo: "Undo TrivialManager (host_ctx 0) added_world = Some (True, undone_world)"
  by (simp add: run_defs showcase_defs)


lemma showcase_middle:
  "(do { (r1, w1) \<leftarrow> AddNewObject watched_world;
         (r2, w2) \<leftarrow> AddNewObject w1;
         Undo TrivialManager (host_ctx 0) w2 }) = Some (True, middle_world)"
  by (simp add: run_defs showcase_defs middle_world_def)

subsection \<open>The steps of Redo and Undo\<close>

lemma ctx_upd_ctx_upd:
  "ctx_upd c f (ctx_upd c g w) = ctx_upd c (\<lambda>y. f (g y)) w"
proof (cases c)
  case (host_ctx n)
  then show ?thesis
    by (cases "n < length (host_contexts w)") (simp_all add: list_update_beyond)
next
  case (sub_ctx p)
  then show ?thesis
    by (cases "p < length (heap w)")
       (simp_all add: hist_upd_def hist_at_def option.map_comp comp_def list_update_beyond)
qed

lemma ctx_upd_notified:
  "ctx_upd c f (w\<lparr>notified := n\<rparr>) = (ctx_upd c f w)\<lparr>notified := n\<rparr>"
  by (cases c) (simp_all add: hist_upd_def hist_at_def)

lemma hist_at_ctx_upd:
  "hist_at w p = Some h \<Longrightarrow>
     \<exists>h'. hist_at (ctx_upd c f w) p = Some h' \<and> m_DoFunc h' = m_DoFunc h
          \<and> m_UndoFunc h' = m_UndoFunc h \<and> m_Params h' = m_Params h \<and> m_Data h' = m_Data h"
  by (cases c) (auto simp: hist_at_def hist_upd_def nth_list_update split: if_splits)

lemma Redo_steps:
  assumes "\<not> s_Lock w" and "ctx_at w c = Some x" and "\<not> m_Mutex x"
    and "stack_at x (m_PresentHistoryIdx x + 1) = Some (Some p)" and "hist_at w p = Some h"
  shows "Redo call c w =
     do { (result, w_out) \<leftarrow> call (m_DoFunc h) (m_Params h) (Redo_entry c w);
          y \<leftarrow> ctx_at w_out c;
          Some (result,
                ctx_upd c (\<lambda>y. y\<lparr>m_IsRedoing := False, m_Mutex := False\<rparr>)
                  (w_out\<lparr>notified := notified w_out @
                      [(c, m_OnStackChanged y, m_PresentHistoryIdx y)]\<rparr>)) }"
proof -
  from assms(4) have "m_PresentHistoryIdx x \<noteq> int (length (m_HistoryStack x)) - 1"
    by (auto simp: stack_at_def split: if_splits)
  moreover
  obtain h' where "hist_at (Redo_entry c w) p = Some h'"
    and "m_DoFunc h' = m_DoFunc h" and "m_Params h' = m_Params h"
    using hist_at_ctx_upd [OF assms(5)] unfolding Redo_entry_def by blast
  ultimately show ?thesis
    using assms(1-4)
    by (auto simp: Redo_def Redo_entry_def ctx_upd_ctx_upd fire_OnStackChanged_def
        ctx_at_ctx_upd_same ctx_upd_notified Let_def
        intro!: Option.bind_cong split: prod.splits)
qed

lemma Undo_steps:
  assumes "\<not> s_Lock w" and "ctx_at w c = Some x" and "\<not> m_Mutex x"
    and "m_PresentHistoryIdx x \<noteq> 0"
    and "stack_at x (m_PresentHistoryIdx x) = Some (Some p)" and "hist_at w p = Some h"
  shows "Undo call c w =
     do { (result, w_out) \<leftarrow> call (m_UndoFunc h) (m_Params h) (Undo_entry c w);
          y \<leftarrow> ctx_at w_out c;
          Some (result,
                ctx_upd c (\<lambda>y. y\<lparr>m_PresentHistoryIdx := m_PresentHistoryIdx y - 1,
                                  m_IsUndoing := False, m_Mutex := False\<rparr>)
                  (w_out\<lparr>notified := notified w_out @
                      [(c, m_OnStackChanged y, m_PresentHistoryIdx y - 1)]\<rparr>)) }"
proof -
  obtain h' where "hist_at (Undo_entry c w) p = Some h'"
    and "m_UndoFunc h' = m_UndoFunc h" and "m_Params h' = m_Params h"
    using hist_at_ctx_upd [OF assms(6)] unfolding Undo_entry_def by blast
  then show ?thesis
    using assms(1-5)
    by (auto simp: Undo_def Undo_entry_def ctx_upd_ctx_upd fire_OnStackChanged_def
        ctx_at_ctx_upd_same ctx_upd_notified Let_def
        intro!: Option.bind_cong split: prod.splits)
qed

text \<open>
  C3, amended. Redo sets \<^verbatim>\<open>m_IsRedoing\<close> and increments the cursor BEFORE it calls the
  do delegate: the delegate runs in a state where the cursor already stands on the
  record being redone; after the delegate returns Redo only clears the flag and
  notifies, it does not move the cursor. Undo calls the undo delegate with
  \<^verbatim>\<open>m_IsUndoing\<close> set and the cursor where it was, and decrements the cursor only
  after the delegate has returned, before it clears the flag.
\<close>

theorem Redo_Undo_order:
  assumes "\<not> s_Lock w" and "ctx_at w c = Some x" and "\<not> m_Mutex x"
  shows "(stack_at x (m_PresentHistoryIdx x + 1) = Some (Some p) \<and> hist_at w p = Some h \<longrightarrow>
            ctx_at (Redo_entry c w) c
              = Some (x\<lparr>m_Mutex := True, m_IsRedoing := True,
                        m_PresentHistoryIdx := m_PresentHistoryIdx x + 1\<rparr>) \<and>
            Redo call c w =
              do { (result, w_out) \<leftarrow> call (m_DoFunc h) (m_Params h) (Redo_entry c w);
                   y \<leftarrow> ctx_at w_out c;
                   Some (result,
                         ctx_upd c (\<lambda>y. y\<lparr>m_IsRedoing := False, m_Mutex := False\<rparr>)
                           (w_out\<lparr>notified := notified w_out @
                               [(c, m_OnStackChanged y, m_PresentHistoryIdx y)]\<rparr>)) })
       \<and> (m_PresentHistoryIdx x \<noteq> 0 \<and> stack_at x (m_PresentHistoryIdx x) = Some (Some q)
            \<and> hist_at w q = Some k \<longrightarrow>
            ctx_at (Undo_entry c w) c = Some (x\<lparr>m_Mutex := True, m_IsUndoing := True\<rparr>) \<and>
            Undo call c w =
              do { (result, w_out) \<leftarrow> call (m_UndoFunc k) (m_Params k) (Undo_entry c w);
                   y \<leftarrow> ctx_at w_out c;
                   Some (result,
                         ctx_upd c (\<lambda>y. y\<lparr>m_PresentHistoryIdx := m_PresentHistoryIdx y - 1,
                                           m_IsUndoing := False, m_Mutex := False\<rparr>)
                           (w_out\<lparr>notified := notified w_out @
                               [(c, m_OnStackChanged y, m_PresentHistoryIdx y - 1)]\<rparr>)) })"
  using assms
  by (auto simp: Redo_steps Undo_steps Redo_entry_def Undo_entry_def ctx_at_ctx_upd_same)

theorem Redo_Undo_order_witness:
  "\<not> s_Lock middle_world
   \<and> ctx_at middle_world (host_ctx 0) = Some (watched_context [None, Some 0, Some 1] 1)
   \<and> \<not> m_Mutex (watched_context [None, Some 0, Some 1] 1)
   \<and> stack_at (watched_context [None, Some 0, Some 1] 1) 2 = Some (Some 1)
   \<and> hist_at middle_world 1 = Some (AddNewObject_record\<lparr>m_ID := 2\<rparr>)
   \<and> stack_at (watched_context [None, Some 0, Some 1] 1) 1 = Some (Some 0)
   \<and> hist_at middle_world 0 = Some AddNewObject_record
   \<and> map_option m_PresentHistoryIdx (ctx_at (Redo_entry (host_ctx 0) middle_world) (host_ctx 0))
       = Some 2
   \<and> map_option m_PresentHistoryIdx (ctx_at (Undo_entry (host_ctx 0) middle_world) (host_ctx 0))
       = Some 1
   \<and> map_option fst (Redo TrivialManager (host_ctx 0) middle_world) = Some True
   \<and> map_option fst (Undo TrivialManager (host_ctx 0) middle_world) = Some True"
proof -
  let ?x = "watched_context [None, Some 0, Some 1] 1"
  have unlocked: "\<not> s_Lock middle_world"
    by (simp add: middle_world_def)
  have live: "ctx_at middle_world (host_ctx 0) = Some ?x"
    by (simp add: middle_world_def)
  have free: "\<not> m_Mutex ?x"
    by (simp add: watched_context_def)
  have cur: "m_PresentHistoryIdx ?x = 1"
    by (simp add: watched_context_def)
  have up: "stack_at ?x 2 = Some (Some 1)" and here: "stack_at ?x 1 = Some (Some 0)"
    by (simp_all add: stack_at_def watched_context_def)
  have rec1: "hist_at middle_world 1 = Some (AddNewObject_record\<lparr>m_ID := 2\<rparr>)"
    and rec0: "hist_at middle_world 0 = Some AddNewObject_record"
    by (simp_all add: middle_world_def hist_at_def)
  note order = Redo_Undo_order [OF unlocked live free,
      of 1 "AddNewObject_record\<lparr>m_ID := 2\<rparr>" TrivialManager 0 AddNewObject_record]
  from order cur up rec1
  have redo_in: "ctx_at (Redo_entry (host_ctx 0) middle_world) (host_ctx 0)
      = Some (?x\<lparr>m_Mutex := True, m_IsRedoing := True, m_PresentHistoryIdx := 1 + 1\<rparr>)"
    by (simp del: ctx_at.simps)
  from order cur here rec0
  have undo_in: "ctx_at (Undo_entry (host_ctx 0) middle_world) (host_ctx 0)
      = Some (?x\<lparr>m_Mutex := True, m_IsUndoing := True\<rparr>)"
    by (simp del: ctx_at.simps)
  have redo: "map_option fst (Redo TrivialManager (host_ctx 0) middle_world) = Some True"
    by (simp add: run_defs showcase_defs middle_world_def)
  have undo: "map_option fst (Undo TrivialManager (host_ctx 0) middle_world) = Some True"
    by (simp add: run_defs showcase_defs middle_world_def)
  from redo_in have "map_option m_PresentHistoryIdx
      (ctx_at (Redo_entry (host_ctx 0) middle_world) (host_ctx 0)) = Some 2"
    by (simp del: ctx_at.simps)
  moreover from undo_in cur have "map_option m_PresentHistoryIdx
      (ctx_at (Undo_entry (host_ctx 0) middle_world) (host_ctx 0)) = Some 1"
    by (simp del: ctx_at.simps)
  ultimately show ?thesis
    using unlocked live free up here rec0 rec1 redo undo by (simp del: ctx_at.simps)
qed

theorem Redo_order_counterexample:
  "map_option m_PresentHistoryIdx (ctx_at undone_world (host_ctx 0)) = Some 0
   \<and> map_option fst (Redo (cursor_probe (host_ctx 0) 0) (host_ctx 0) undone_world) = Some False
   \<and> map_option fst (Redo (cursor_probe (host_ctx 0) 1) (host_ctx 0) undone_world) = Some True"
  by (simp add: cursor_probe_def run_defs showcase_defs)


subsection \<open>The loop of PrePush\<close>

lemma delete_History_ctx:
  "delete_History q w = Some w1 \<Longrightarrow> ctx_at w1 c = None \<or> ctx_at w1 c = ctx_at w c"
  by (cases q; cases c)
     (auto simp: delete_History_def hist_at_def nth_list_update Option.bind_eq_Some_conv
           split: if_splits)

lemma delete_History_hist:
  "delete_History q w = Some w1 \<Longrightarrow> hist_at w1 p = None \<or> hist_at w1 p = hist_at w p"
  by (cases q)
     (auto simp: delete_History_def hist_at_def nth_list_update Option.bind_eq_Some_conv
           split: if_splits)

lemma delete_History_freed:
  "delete_History (Some p) w = Some w1 \<Longrightarrow> hist_at w1 p = None"
  by (auto simp: delete_History_def hist_at_def Option.bind_eq_Some_conv split: if_splits)

lemma delete_History_frame:
  "delete_History q w = Some w1 \<Longrightarrow>
     s_Lock w1 = s_Lock w \<and> s_Context w1 = s_Context w \<and> notified w1 = notified w \<and>
     host w1 = host w \<and> NewID_id w1 = NewID_id w \<and> length (heap w1) = length (heap w)"
  by (cases q) (auto simp: delete_History_def Option.bind_eq_Some_conv)

lemma hist_at_ctx_upd_None:
  "hist_at (ctx_upd c f w) p = None \<longleftrightarrow> hist_at w p = None"
  by (cases c) (auto simp: hist_at_def hist_upd_def nth_list_update)

lemma length_heap_ctx_upd [simp]:
  "length (heap (ctx_upd c f w)) = length (heap w)"
  by (cases c) (simp_all add: hist_upd_def)

lemma PrePush_loop_post:
  "PrePush_loop c w = Some w' \<Longrightarrow> ctx_at w c = Some x \<Longrightarrow>
     0 \<le> m_PresentHistoryIdx x \<and> m_PresentHistoryIdx x \<le> int (length (m_HistoryStack x)) \<and>
     ctx_at w' c = Some (x\<lparr>m_HistoryStack := take (nat (m_PresentHistoryIdx x)) (m_HistoryStack x)\<rparr>) \<and>
     (\<forall>c'. c' \<noteq> c \<longrightarrow> ctx_at w' c' = None \<or> ctx_at w' c' = ctx_at w c') \<and>
     (\<forall>p. hist_at w p = None \<longrightarrow> hist_at w' p = None) \<and>
     (\<forall>i p. nat (m_PresentHistoryIdx x) \<le> i \<and> i < length (m_HistoryStack x)
            \<and> m_HistoryStack x ! i = Some p \<longrightarrow> hist_at w' p = None \<and> p < length (heap w)) \<and>
     s_Lock w' = s_Lock w \<and> s_Context w' = s_Context w \<and> notified w' = notified w \<and>
     host w' = host w \<and> NewID_id w' = NewID_id w \<and> length (heap w') = length (heap w)"
proof (induction c w arbitrary: x w' rule: PrePush_loop.induct)
  case (1 this w)
  let ?s = "m_HistoryStack x"
  let ?i = "m_PresentHistoryIdx x"
  show ?case
  proof (cases "int (length ?s) = ?i")
    case True
    with "1.prems" have "w' = w"
      by (subst (asm) PrePush_loop.simps) simp
    with True "1.prems" show ?thesis by auto
  next
    case False
    with "1.prems" obtain w1 where nonempty: "?s \<noteq> []"
      and del: "delete_History (last ?s) w = Some w1"
      and live1: "ctx_at w1 this \<noteq> None"
      and rec: "PrePush_loop this
                  (ctx_upd this (\<lambda>y. y\<lparr>m_HistoryStack := butlast (m_HistoryStack y)\<rparr>) w1) = Some w'"
      by (subst (asm) PrePush_loop.simps) (auto split: if_splits option.splits)
    let ?w2 = "ctx_upd this (\<lambda>y. y\<lparr>m_HistoryStack := butlast (m_HistoryStack y)\<rparr>) w1"
    from delete_History_ctx [OF del, of this] live1 "1.prems"(2)
    have x1: "ctx_at w1 this = Some x" by auto
    then have x2: "ctx_at ?w2 this = Some (x\<lparr>m_HistoryStack := butlast ?s\<rparr>)"
      by (simp add: ctx_at_ctx_upd_same)
    note IH = "1.IH" [OF "1.prems"(2) False nonempty del x1 rec x2]
    from IH have lo: "0 \<le> ?i" and hi: "?i \<le> int (length (butlast ?s))"
      by simp_all
    from IH have ih_res: "ctx_at w' this = Some (x\<lparr>m_HistoryStack := take (nat ?i) (butlast ?s)\<rparr>)"
      by simp
    from IH have ih_others: "\<forall>c'. c' \<noteq> this \<longrightarrow> ctx_at w' c' = None \<or> ctx_at w' c' = ctx_at ?w2 c'"
      by simp
    from IH have ih_freed: "\<forall>p. hist_at ?w2 p = None \<longrightarrow> hist_at w' p = None"
      by simp
    from IH have ih_tail: "\<forall>j p. nat ?i \<le> j \<and> j < length (butlast ?s) \<and> butlast ?s ! j = Some p
        \<longrightarrow> hist_at w' p = None \<and> p < length (heap w1)"
      by simp
    from IH have ih_frame: "s_Lock w' = s_Lock w1 \<and> s_Context w' = s_Context w1 \<and>
        notified w' = notified w1 \<and> host w' = host w1 \<and> NewID_id w' = NewID_id w1 \<and>
        length (heap w') = length (heap w1)"
      by simp
    from hi have hi': "?i \<le> int (length ?s)" by simp
    from nonempty have "0 < length ?s" by simp
    with hi have "nat ?i < length ?s"
      by (simp only: length_butlast)
    then have tk: "take (nat ?i) (butlast ?s) = take (nat ?i) ?s"
      by (rule take_butlast)
    from ih_res tk have res: "ctx_at w' this = Some (x\<lparr>m_HistoryStack := take (nat ?i) ?s\<rparr>)"
      by simp
    have others: "\<forall>c'. c' \<noteq> this \<longrightarrow> ctx_at w' c' = None \<or> ctx_at w' c' = ctx_at w c'"
    proof (intro allI impI)
      fix c' assume ne: "c' \<noteq> this"
      then have "ctx_at ?w2 c' = ctx_at w1 c'"
        by (simp add: ctx_at_ctx_upd_other)
      moreover from ih_others ne have "ctx_at w' c' = None \<or> ctx_at w' c' = ctx_at ?w2 c'"
        by blast
      moreover note delete_History_ctx [OF del, of c']
      ultimately show "ctx_at w' c' = None \<or> ctx_at w' c' = ctx_at w c'"
        by auto
    qed
    have freed: "\<forall>p. hist_at w p = None \<longrightarrow> hist_at w' p = None"
    proof (intro allI impI)
      fix p assume "hist_at w p = None"
      with delete_History_hist [OF del, of p] have "hist_at w1 p = None" by auto
      then have "hist_at ?w2 p = None" by (simp add: hist_at_ctx_upd_None)
      with ih_freed show "hist_at w' p = None" by blast
    qed
    have len1: "length (heap w1) = length (heap w)"
      using delete_History_frame [OF del] by simp
    have tail: "\<forall>i p. nat ?i \<le> i \<and> i < length ?s \<and> ?s ! i = Some p
        \<longrightarrow> hist_at w' p = None \<and> p < length (heap w)"
    proof (intro allI impI)
      fix i p assume a: "nat ?i \<le> i \<and> i < length ?s \<and> ?s ! i = Some p"
      show "hist_at w' p = None \<and> p < length (heap w)"
      proof (cases "i < length (butlast ?s)")
        case True
        then have "butlast ?s ! i = Some p" using a by (simp add: nth_butlast)
        with ih_tail True a len1 show ?thesis by auto
      next
        case False
        with a have "i = length ?s - 1" by auto
        with a nonempty have lst: "last ?s = Some p" by (simp add: last_conv_nth)
        with del have "hist_at w1 p = None" by (simp add: delete_History_freed)
        then have "hist_at ?w2 p = None" by (simp add: hist_at_ctx_upd_None)
        with ih_freed have "hist_at w' p = None" by blast
        moreover from del lst have "p < length (heap w)"
          by (auto simp: delete_History_def hist_at_def Option.bind_eq_Some_conv split: if_splits)
        ultimately show ?thesis by simp
      qed
    qed
    from ih_frame delete_History_frame [OF del]
    have frame: "s_Lock w' = s_Lock w \<and> s_Context w' = s_Context w \<and> notified w' = notified w \<and>
      host w' = host w \<and> NewID_id w' = NewID_id w \<and> length (heap w') = length (heap w)"
      by simp
    from lo hi' res others freed tail frame show ?thesis by (intro conjI) simp_all
  qed
qed

subsection \<open>Push\<close>

lemma hist_at_ctx_upd_eq:
  "hist_at (ctx_upd c f w) p =
     (if c = sub_ctx p then map_option (\<lambda>h. h\<lparr>m_SubContext := f (m_SubContext h)\<rparr>) (hist_at w p)
      else hist_at w p)"
  by (cases c) (auto simp: hist_at_def hist_upd_def nth_list_update)

lemma Push_post:
  assumes "\<not> s_Lock w" and "IsUndoingOrRedoing w c = Some False"
    and "Push name d ud args c w = Some w'" and "ctx_at w c = Some x"
  shows "0 \<le> m_PresentHistoryIdx x + 1 \<and> m_PresentHistoryIdx x + 1 \<le> int (length (m_HistoryStack x)) \<and>
     ctx_at w' c = Some (x\<lparr>m_PresentHistoryIdx := m_PresentHistoryIdx x + 1,
                            m_HistoryStack := take (nat (m_PresentHistoryIdx x + 1)) (m_HistoryStack x)
                                               @ [Some (length (heap w))]\<rparr>) \<and>
     (\<exists>h. hist_at w' (length (heap w)) = Some h \<and> m_Label h = name \<and> m_DoFunc h = d
          \<and> m_UndoFunc h = ud \<and> m_Params h = args \<and> m_Data h = Map.empty
          \<and> m_SubContext h = new_HistoryContext (Some c)) \<and>
     (\<forall>c'. c' \<noteq> c \<and> c' \<noteq> sub_ctx (length (heap w))
          \<longrightarrow> ctx_at w' c' = None \<or> ctx_at w' c' = ctx_at w c') \<and>
     (\<forall>i p. nat (m_PresentHistoryIdx x + 1) \<le> i \<and> i < length (m_HistoryStack x)
            \<and> m_HistoryStack x ! i = Some p \<longrightarrow> hist_at w' p = None) \<and>
     s_Lock w' = s_Lock w \<and> s_Context w' = s_Context w \<and> notified w' = notified w \<and>
     host w' = host w"
proof -
  let ?w0 = "ctx_upd c (\<lambda>y. y\<lparr>m_PresentHistoryIdx := m_PresentHistoryIdx y + 1\<rparr>) w"
  let ?x0 = "x\<lparr>m_PresentHistoryIdx := m_PresentHistoryIdx x + 1\<rparr>"
  let ?a = "length (heap w)"
  from assms obtain w1 where loop: "PrePush_loop c ?w0 = Some w1"
    and w': "w' = ctx_upd c (\<lambda>y. y\<lparr>m_HistoryStack := m_HistoryStack y @ [Some (length (heap w1))]\<rparr>)
                   (snd (new_HistoryWithParams c name d ud args w1))"
    by (auto simp: Push_def PrePush_def new_HistoryWithParams_def Let_def Option.bind_eq_Some_conv
          split: if_splits)
  have x0: "ctx_at ?w0 c = Some ?x0"
    using assms(4) by (simp add: ctx_at_ctx_upd_same)
  note post = PrePush_loop_post [OF loop x0]
  from post have range: "0 \<le> m_PresentHistoryIdx x + 1
      \<and> m_PresentHistoryIdx x + 1 \<le> int (length (m_HistoryStack x))"
    by simp
  from post have x1: "ctx_at w1 c = Some (?x0\<lparr>m_HistoryStack :=
      take (nat (m_PresentHistoryIdx x + 1)) (m_HistoryStack x)\<rparr>)"
    by simp
  from post have others1: "\<forall>c'. c' \<noteq> c \<longrightarrow> ctx_at w1 c' = None \<or> ctx_at w1 c' = ctx_at ?w0 c'"
    by simp
  from post have tail1: "\<forall>i p. nat (m_PresentHistoryIdx x + 1) \<le> i \<and> i < length (m_HistoryStack x)
            \<and> m_HistoryStack x ! i = Some p \<longrightarrow> hist_at w1 p = None \<and> p < length (heap w)"
    by simp
  from post have frame1: "s_Lock w1 = s_Lock w \<and> s_Context w1 = s_Context w \<and>
      notified w1 = notified w \<and> host w1 = host w \<and> length (heap w1) = length (heap w)"
    by simp
  let ?h = "\<lparr> m_Data = Map.empty, m_Label = name, m_ID = (NewID_id w1 + 1) mod 2 ^ 32,
               m_SubContext = new_HistoryContext (Some c),
               m_Params = args, m_DoFunc = d, m_UndoFunc = ud \<rparr>"
  let ?w2 = "w1\<lparr>NewID_id := (NewID_id w1 + 1) mod 2 ^ 32, heap := heap w1 @ [Some ?h]\<rparr>"
  have w2: "snd (new_HistoryWithParams c name d ud args w1) = ?w2"
    by (simp add: new_HistoryWithParams_def Let_def)
  have hist2: "\<And>p. hist_at ?w2 p = (if p = ?a then Some ?h else hist_at w1 p)"
    using frame1 by (auto simp: hist_at_def nth_append)
  have ctx2: "\<And>c'. ctx_at ?w2 c' = (if c' = sub_ctx ?a then Some (new_HistoryContext (Some c))
                                     else ctx_at w1 c')"
  proof -
    fix c' show "ctx_at ?w2 c' = (if c' = sub_ctx ?a then Some (new_HistoryContext (Some c))
                                     else ctx_at w1 c')"
      using hist2 by (cases c') auto
  qed
  from x1 have "c \<noteq> sub_ctx ?a"
    using frame1 by (auto simp: hist_at_def)
  with x1 ctx2 have x2: "ctx_at ?w2 c = Some (?x0\<lparr>m_HistoryStack :=
      take (nat (m_PresentHistoryIdx x + 1)) (m_HistoryStack x)\<rparr>)"
    by simp
  from w' w2 frame1 have w'': "w' = ctx_upd c (\<lambda>y. y\<lparr>m_HistoryStack := m_HistoryStack y @ [Some ?a]\<rparr>) ?w2"
    by simp
  have res: "ctx_at w' c = Some (x\<lparr>m_PresentHistoryIdx := m_PresentHistoryIdx x + 1,
                            m_HistoryStack := take (nat (m_PresentHistoryIdx x + 1)) (m_HistoryStack x)
                                               @ [Some ?a]\<rparr>)"
    unfolding w'' using x2 by (simp add: ctx_at_ctx_upd_same)
  have new: "\<exists>h. hist_at w' ?a = Some h \<and> m_Label h = name \<and> m_DoFunc h = d
          \<and> m_UndoFunc h = ud \<and> m_Params h = args \<and> m_Data h = Map.empty
          \<and> m_SubContext h = new_HistoryContext (Some c)"
  proof -
    have "hist_at ?w2 ?a = Some ?h" using hist2 by simp
    with \<open>c \<noteq> sub_ctx ?a\<close> have "hist_at w' ?a = Some ?h"
      unfolding w'' by (simp add: hist_at_ctx_upd_eq)
    then show ?thesis by simp
  qed
  have others: "\<forall>c'. c' \<noteq> c \<and> c' \<noteq> sub_ctx ?a
          \<longrightarrow> ctx_at w' c' = None \<or> ctx_at w' c' = ctx_at w c'"
  proof (intro allI impI)
    fix c' assume ne: "c' \<noteq> c \<and> c' \<noteq> sub_ctx ?a"
    then have ne': "c \<noteq> c'" by auto
    then have "ctx_at w' c' = ctx_at ?w2 c'"
      unfolding w'' by (rule ctx_at_ctx_upd_other)
    with ne ctx2 [of c'] have "ctx_at w' c' = ctx_at w1 c'"
      by simp
    moreover from ne' have "ctx_at ?w0 c' = ctx_at w c'"
      by (rule ctx_at_ctx_upd_other)
    moreover from others1 ne have "ctx_at w1 c' = None \<or> ctx_at w1 c' = ctx_at ?w0 c'"
      by blast
    ultimately show "ctx_at w' c' = None \<or> ctx_at w' c' = ctx_at w c'"
      by auto
  qed
  have tail: "\<forall>i p. nat (m_PresentHistoryIdx x + 1) \<le> i \<and> i < length (m_HistoryStack x)
            \<and> m_HistoryStack x ! i = Some p \<longrightarrow> hist_at w' p = None"
  proof (intro allI impI)
    fix i p assume "nat (m_PresentHistoryIdx x + 1) \<le> i \<and> i < length (m_HistoryStack x)
            \<and> m_HistoryStack x ! i = Some p"
    with tail1 have "hist_at w1 p = None" and "p < ?a" by blast+
    with hist2 have "hist_at ?w2 p = None" by simp
    then show "hist_at w' p = None"
      unfolding w'' by (simp only: hist_at_ctx_upd_None)
  qed
  have frame: "s_Lock w' = s_Lock w \<and> s_Context w' = s_Context w \<and> notified w' = notified w \<and>
     host w' = host w"
    unfolding w'' using frame1 by simp
  from range res new others tail frame show ?thesis
    by (intro conjI) simp_all
qed




text \<open>
  Push returns: on a context with the cursor in range whose redo tail can be deleted
  the loop ends and the record is appended.
\<close>

lemma tail_deletable_snoc_None:
  "tail_deletable w c (ps @ [None]) \<Longrightarrow> tail_deletable w c ps"
  by (simp add: tail_deletable_def List.map_filter_def)

lemma tail_deletable_snoc_Some:
  assumes "tail_deletable w c (ps @ [Some p])"
  shows "tail_deletable (ctx_upd c f (w\<lparr>heap := (heap w)[p := None]\<rparr>)) c ps"
proof -
  from assms have dist: "distinct (List.map_filter id ps)"
    and all: "list_all (\<lambda>q. case q of None \<Rightarrow> True
                    | Some p \<Rightarrow> hist_at w p \<noteq> None \<and> c \<noteq> sub_ctx p) ps"
    by (auto simp: tail_deletable_def List.map_filter_def)
  from assms have "p \<notin> set (List.map_filter id ps)"
    by (auto simp: tail_deletable_def List.map_filter_def)
  then have fresh: "Some p \<notin> set ps"
    by (force simp: List.map_filter_def)
  have "list_all (\<lambda>q. case q of None \<Rightarrow> True
      | Some p' \<Rightarrow> hist_at (ctx_upd c f (w\<lparr>heap := (heap w)[p := None]\<rparr>)) p' \<noteq> None
                  \<and> c \<noteq> sub_ctx p') ps"
    unfolding list_all_iff
  proof
    fix q assume q: "q \<in> set ps"
    show "case q of None \<Rightarrow> True
      | Some p' \<Rightarrow> hist_at (ctx_upd c f (w\<lparr>heap := (heap w)[p := None]\<rparr>)) p' \<noteq> None
                  \<and> c \<noteq> sub_ctx p'"
    proof (cases q)
      case None
      then show ?thesis by simp
    next
      case (Some p')
      with q fresh have ne: "p' \<noteq> p" by auto
      from all q Some have "hist_at w p' \<noteq> None" and c: "c \<noteq> sub_ctx p'"
        by (auto simp: list_all_iff)
      with ne have "hist_at (w\<lparr>heap := (heap w)[p := None]\<rparr>) p' \<noteq> None"
        by (auto simp: hist_at_def split: if_splits)
      then have "hist_at (ctx_upd c f (w\<lparr>heap := (heap w)[p := None]\<rparr>)) p' \<noteq> None"
        by (simp add: hist_at_ctx_upd_None)
      with c Some show ?thesis by simp
    qed
  qed
  with dist show ?thesis by (simp add: tail_deletable_def)
qed

lemma tail_deletable_ctx_upd:
  "tail_deletable w c ps \<Longrightarrow> tail_deletable (ctx_upd c f w) c ps"
  by (auto simp: tail_deletable_def list_all_iff hist_at_ctx_upd_None split: option.splits)

lemma PrePush_loop_returns:
  "ctx_at w c = Some x \<Longrightarrow> 0 \<le> m_PresentHistoryIdx x
   \<Longrightarrow> m_PresentHistoryIdx x \<le> int (length (m_HistoryStack x))
   \<Longrightarrow> tail_deletable w c (drop (nat (m_PresentHistoryIdx x)) (m_HistoryStack x))
   \<Longrightarrow> \<exists>w'. PrePush_loop c w = Some w'"
proof (induction "length (m_HistoryStack x) - nat (m_PresentHistoryIdx x)" arbitrary: w x)
  case 0
  then have "int (length (m_HistoryStack x)) = m_PresentHistoryIdx x" by simp
  with "0.prems"(1) show ?case by (subst PrePush_loop.simps) simp
next
  case (Suc n)
  let ?s = "m_HistoryStack x" and ?i = "m_PresentHistoryIdx x"
  let ?butlast = "\<lambda>y. y\<lparr>m_HistoryStack := butlast (m_HistoryStack y)\<rparr>"
  from Suc.hyps(2) have lt: "nat ?i < length ?s" by simp
  then have nonempty: "?s \<noteq> []" by auto
  from lt Suc.prems(2) have neq: "int (length ?s) \<noteq> ?i" by simp
  from lt have tail: "drop (nat ?i) ?s = drop (nat ?i) (butlast ?s) @ [last ?s]"
    using nonempty
    by (metis append_butlast_last_id butlast_drop drop_eq_Nil leD last_drop)
  have step: "\<exists>w1. delete_History (last ?s) w = Some w1 \<and> ctx_at w1 c = Some x
      \<and> tail_deletable (ctx_upd c ?butlast w1) c (drop (nat ?i) (butlast ?s))"
  proof (cases "last ?s")
    case None
    with Suc.prems(4) tail have "tail_deletable w c (drop (nat ?i) (butlast ?s))"
      by (simp add: tail_deletable_snoc_None)
    then have "tail_deletable (ctx_upd c ?butlast w) c (drop (nat ?i) (butlast ?s))"
      by (rule tail_deletable_ctx_upd)
    with None Suc.prems(1) show ?thesis by (simp add: delete_History_def)
  next
    case (Some p)
    with Suc.prems(4) tail have td: "tail_deletable w c (drop (nat ?i) (butlast ?s) @ [Some p])"
      by simp
    then have live: "hist_at w p \<noteq> None" and own: "c \<noteq> sub_ctx p"
      by (auto simp: tail_deletable_def)
    let ?w1 = "w\<lparr>heap := (heap w)[p := None]\<rparr>"
    from live Some have del: "delete_History (last ?s) w = Some ?w1"
      by (auto simp: delete_History_def)
    from own Suc.prems(1) have x1: "ctx_at ?w1 c = Some x"
      by (cases c) (auto simp: hist_at_def split: if_splits)
    from tail_deletable_snoc_Some [OF td] del x1 show ?thesis by blast
  qed
  then obtain w1 where del: "delete_History (last ?s) w = Some w1"
    and x1: "ctx_at w1 c = Some x"
    and td: "tail_deletable (ctx_upd c ?butlast w1) c (drop (nat ?i) (butlast ?s))"
    by blast
  let ?w2 = "ctx_upd c ?butlast w1"
  from x1 have x2: "ctx_at ?w2 c = Some (?butlast x)" by (simp add: ctx_at_ctx_upd_same)
  have n: "n = length (m_HistoryStack (?butlast x)) - nat (m_PresentHistoryIdx (?butlast x))"
    using Suc.hyps(2) by simp
  have lo: "0 \<le> m_PresentHistoryIdx (?butlast x)" using Suc.prems(2) by simp
  have hi: "m_PresentHistoryIdx (?butlast x) \<le> int (length (m_HistoryStack (?butlast x)))"
    using lt by simp
  have td': "tail_deletable ?w2 c
      (drop (nat (m_PresentHistoryIdx (?butlast x))) (m_HistoryStack (?butlast x)))"
    using td by simp
  from Suc.hyps(1) [OF n x2 lo hi td'] obtain w' where "PrePush_loop c ?w2 = Some w'"
    by blast
  with Suc.prems(1) neq nonempty del x1 show ?case
    by (subst PrePush_loop.simps) simp
qed

lemma Push_returns:
  assumes "\<not> s_Lock w" and "IsUndoingOrRedoing w c = Some False"
    and "ctx_at w c = Some x" and "cursor_in_range x"
    and "tail_deletable w c (drop (nat (m_PresentHistoryIdx x + 1)) (m_HistoryStack x))"
  shows "\<exists>w'. Push name d ud args c w = Some w'"
proof -
  let ?inc = "\<lambda>y. y\<lparr>m_PresentHistoryIdx := m_PresentHistoryIdx y + 1\<rparr>"
  from assms(3) have x0: "ctx_at (ctx_upd c ?inc w) c = Some (?inc x)"
    by (simp add: ctx_at_ctx_upd_same)
  from assms(4) have lo: "0 \<le> m_PresentHistoryIdx (?inc x)"
    and hi: "m_PresentHistoryIdx (?inc x) \<le> int (length (m_HistoryStack (?inc x)))"
    by (simp_all add: cursor_in_range_def)
  from assms(5) have td: "tail_deletable (ctx_upd c ?inc w) c
      (drop (nat (m_PresentHistoryIdx (?inc x))) (m_HistoryStack (?inc x)))"
    by (simp add: tail_deletable_ctx_upd)
  from PrePush_loop_returns [OF x0 lo hi td] obtain w1 where
    loop: "PrePush_loop c (ctx_upd c ?inc w) = Some w1" by blast
  from PrePush_loop_post [OF loop x0] have "ctx_at w1 c \<noteq> None" and len: "length (heap w1) = length (heap w)"
    by simp_all
  then obtain x1 where x1: "ctx_at w1 c = Some x1" by auto
  have "c \<noteq> sub_ctx (length (heap w1))"
    using x1 by (auto simp: hist_at_def)
  then have "ctx_at (snd (new_HistoryWithParams c name d ud args w1)) c = Some x1"
    using x1 by (cases c) (auto simp: new_HistoryWithParams_def Let_def hist_at_def nth_append
        split: if_splits)
  with assms(1,2,3) loop show ?thesis
    by (simp add: Push_def PrePush_def split_beta)
qed

text \<open>
  C8. A push that takes effect (gate unlocked, context neither undoing nor redoing),
  in particular one that follows an undo, returns with the cursor on the last element
  of the stack: the cursor is one more than before, every record at an index above
  the old cursor has been deleted from the heap, and the stack is the old stack up to
  the old cursor followed by the new record.
\<close>

theorem push_truncates_redo_tail:
  assumes "\<not> s_Lock w" and "IsUndoingOrRedoing w c = Some False"
    and "Push name d ud args c w = Some w'"
  shows "\<exists>x x'. ctx_at w c = Some x \<and> ctx_at w' c = Some x' \<and>
      m_PresentHistoryIdx x' = int (length (m_HistoryStack x')) - 1 \<and>
      m_PresentHistoryIdx x' = m_PresentHistoryIdx x + 1 \<and>
      m_HistoryStack x' = take (nat (m_PresentHistoryIdx x + 1)) (m_HistoryStack x)
                           @ [Some (length (heap w))] \<and>
      (\<forall>i p. nat (m_PresentHistoryIdx x + 1) \<le> i \<and> i < length (m_HistoryStack x)
             \<and> m_HistoryStack x ! i = Some p \<longrightarrow> hist_at w' p = None) \<and>
      (\<exists>h. hist_at w' (length (heap w)) = Some h \<and> m_Label h = name \<and> m_DoFunc h = d
           \<and> m_UndoFunc h = ud \<and> m_Params h = args)"
proof -
  from assms obtain x where x: "ctx_at w c = Some x"
    by (auto simp: Push_def PrePush_def Option.bind_eq_Some_conv split: if_splits)
  note post = Push_post [OF assms x]
  let ?x' = "x\<lparr>m_PresentHistoryIdx := m_PresentHistoryIdx x + 1,
               m_HistoryStack := take (nat (m_PresentHistoryIdx x + 1)) (m_HistoryStack x)
                                  @ [Some (length (heap w))]\<rparr>"
  from post have range: "0 \<le> m_PresentHistoryIdx x + 1"
      "m_PresentHistoryIdx x + 1 \<le> int (length (m_HistoryStack x))"
    by simp_all
  from post have x': "ctx_at w' c = Some ?x'" by simp
  from range have top: "m_PresentHistoryIdx ?x' = int (length (m_HistoryStack ?x')) - 1"
    by simp
  from post have tail: "\<forall>i p. nat (m_PresentHistoryIdx x + 1) \<le> i \<and> i < length (m_HistoryStack x)
             \<and> m_HistoryStack x ! i = Some p \<longrightarrow> hist_at w' p = None"
    by simp
  from post have new: "\<exists>h. hist_at w' (length (heap w)) = Some h \<and> m_Label h = name \<and> m_DoFunc h = d
           \<and> m_UndoFunc h = ud \<and> m_Params h = args"
    by auto
  from x x' top tail new show ?thesis
    by (intro exI [of _ x] exI [of _ ?x'] conjI) simp_all
qed

lemma undone_idle: "IsUndoingOrRedoing undone_world (host_ctx 0) = Some False"
  by (simp add: run_defs showcase_defs)

theorem push_truncates_redo_tail_witness:
  "Undo TrivialManager (host_ctx 0) added_world = Some (True, undone_world)
   \<and> \<not> s_Lock undone_world \<and> IsUndoingOrRedoing undone_world (host_ctx 0) = Some False
   \<and> (\<exists>w'. Push ''AddNewObject'' 0 1 [] (host_ctx 0) undone_world = Some w'
          \<and> (\<exists>x'. ctx_at w' (host_ctx 0) = Some x'
                 \<and> m_PresentHistoryIdx x' = int (length (m_HistoryStack x')) - 1
                 \<and> m_HistoryStack x' = [None, Some 1])
          \<and> hist_at w' 0 = None)"
proof -
  have unlocked: "\<not> s_Lock undone_world"
    by (simp add: undone_world_def)
  obtain w' where push: "Push ''AddNewObject'' 0 1 [] (host_ctx 0) undone_world = Some w'"
    by (simp add: run_defs showcase_defs)
  have x: "ctx_at undone_world (host_ctx 0) = Some (watched_context [None, Some 0] 0)"
    by (simp add: undone_world_def)
  have len: "length (heap undone_world) = 1"
    by (simp add: undone_world_def)
  from push_truncates_redo_tail [OF unlocked undone_idle push] x len
  obtain x' where x': "ctx_at w' (host_ctx 0) = Some x'"
    and top: "m_PresentHistoryIdx x' = int (length (m_HistoryStack x')) - 1"
    and stack: "m_HistoryStack x' = take (nat (0 + 1)) [None, Some 0] @ [Some 1]"
    and tail: "\<forall>i p. nat (0 + 1) \<le> i \<and> i < length [None, Some (0::nat)]
             \<and> [None, Some 0] ! i = Some p \<longrightarrow> hist_at w' p = None"
    by (auto simp: watched_context_def simp del: ctx_at.simps)
  from tail have "hist_at w' 0 = None"
    by (auto dest: spec [of _ 1])
  with showcase_undo unlocked undone_idle push x' top stack show ?thesis
    by (auto simp del: ctx_at.simps)
qed

subsection \<open>The cursor invariant is preserved\<close>

lemma ctx_at_ctx_upd_eq:
  "ctx_at (ctx_upd c f w) c' = (if c' = c then map_option f (ctx_at w c) else ctx_at w c')"
proof (cases "c' = c")
  case False
  then show ?thesis by (simp add: ctx_at_ctx_upd_other)
next
  case True
  show ?thesis
  proof (cases "ctx_at w c")
    case None
    then show ?thesis using True
      by (cases c) (auto simp: hist_at_def hist_upd_def split: if_splits)
  next
    case (Some x)
    then show ?thesis using True by (simp add: ctx_at_ctx_upd_same)
  qed
qed

lemma all_in_range_iff:
  "all_in_range w \<longleftrightarrow> (\<forall>c x. ctx_at w c = Some x \<longrightarrow> cursor_in_range x)"
proof
  assume inv: "all_in_range w"
  show "\<forall>c x. ctx_at w c = Some x \<longrightarrow> cursor_in_range x"
  proof (intro allI impI)
    fix c x assume live: "ctx_at w c = Some x"
    show "cursor_in_range x"
    proof (cases c)
      case (host_ctx n)
      with live inv show ?thesis
        by (auto simp: all_in_range_def list_all_length split: if_splits)
    next
      case (sub_ctx p)
      with live obtain h where "p < length (heap w)" "heap w ! p = Some h" "x = m_SubContext h"
        by (auto simp: hist_at_def split: if_splits)
      with inv show ?thesis
        by (auto simp: all_in_range_def list_all_length dest!: spec [of _ p])
    qed
  qed
next
  assume ptr: "\<forall>c x. ctx_at w c = Some x \<longrightarrow> cursor_in_range x"
  have "list_all cursor_in_range (host_contexts w)"
    unfolding list_all_length
  proof (intro allI impI)
    fix n assume "n < length (host_contexts w)"
    then have "ctx_at w (host_ctx n) = Some (host_contexts w ! n)" by simp
    with ptr show "cursor_in_range (host_contexts w ! n)" by blast
  qed
  moreover
  have "list_all (\<lambda>cell. case cell of None \<Rightarrow> True | Some h \<Rightarrow> cursor_in_range (m_SubContext h))
       (heap w)"
    unfolding list_all_length
  proof (intro allI impI)
    fix p assume p: "p < length (heap w)"
    show "case heap w ! p of None \<Rightarrow> True | Some h \<Rightarrow> cursor_in_range (m_SubContext h)"
    proof (cases "heap w ! p")
      case None
      then show ?thesis by simp
    next
      case (Some h)
      with p have "ctx_at w (sub_ctx p) = Some (m_SubContext h)"
        by (simp add: hist_at_def)
      with ptr have "cursor_in_range (m_SubContext h)" by blast
      with Some show ?thesis by simp
    qed
  qed
  ultimately show "all_in_range w" by (simp add: all_in_range_def)
qed

lemma all_in_range_ctx_upd:
  assumes "all_in_range w" and "\<And>x. ctx_at w c = Some x \<Longrightarrow> cursor_in_range (f x)"
  shows "all_in_range (ctx_upd c f w)"
  using assms unfolding all_in_range_iff
  by (auto simp: ctx_at_ctx_upd_eq split: if_splits)

lemma all_in_range_frame [simp]:
  "all_in_range (w\<lparr>notified := n\<rparr>) = all_in_range w"
  "all_in_range (w\<lparr>s_Context := a\<rparr>) = all_in_range w"
  "all_in_range (w\<lparr>host := b\<rparr>) = all_in_range w"
  by (simp_all add: all_in_range_def)

lemma AbortPush_in_range:
  assumes "all_in_range w" and "admissible call (op_AbortPush c) w" and "AbortPush c w = Some w'"
  shows "all_in_range w'"
proof (cases "s_Lock w \<or> IsUndoingOrRedoing w c = Some True")
  case True
  with assms(3) have "w' = w" by (auto simp: AbortPush_def split: if_splits)
  with assms(1) show ?thesis by simp
next
  case False
  with assms(3) obtain x where x: "ctx_at w c = Some x"
    and w': "w' = ctx_upd c (\<lambda>y. y\<lparr>m_PresentHistoryIdx := m_PresentHistoryIdx y - 1,
                                    m_HistoryStack := butlast (m_HistoryStack y)\<rparr>) w"
    by (auto simp: AbortPush_def Option.bind_eq_Some_conv split: if_splits)
  from assms(1) x have "cursor_in_range x" by (auto simp: all_in_range_iff)
  moreover from assms(2) x have "1 \<le> m_PresentHistoryIdx x" by simp
  ultimately have "cursor_in_range (x\<lparr>m_PresentHistoryIdx := m_PresentHistoryIdx x - 1,
                                    m_HistoryStack := butlast (m_HistoryStack x)\<rparr>)"
    by (auto simp: cursor_in_range_def)
  with assms(1) x show ?thesis unfolding w'
    by (intro all_in_range_ctx_upd) auto
qed

lemma Clear_in_range:
  assumes "all_in_range w" and "Clear c w = Some w'"
  shows "all_in_range w'"
proof (cases "s_Lock w")
  case True
  with assms show ?thesis by (simp add: Clear_def)
next
  case False
  with assms(2) obtain n where "w' = (ctx_upd c (\<lambda>y. y\<lparr>m_PresentHistoryIdx := 0,
      m_HistoryStack := [None]\<rparr>) w)\<lparr>notified := n\<rparr>"
    by (auto simp: Clear_def fire_OnStackChanged_def Option.bind_eq_Some_conv)
  with assms(1) show ?thesis
    by (auto intro!: all_in_range_ctx_upd simp: cursor_in_range_def)
qed

lemma ctx_at_hist_upd_data:
  "ctx_at (hist_upd p (\<lambda>h. h\<lparr>m_Data := g h\<rparr>) w) c = ctx_at w c"
  by (cases c) (auto simp: hist_upd_def hist_at_def nth_list_update option.map_comp comp_def)

lemma Save_in_range:
  assumes "all_in_range w" and "Save key val p w = Some (r, w')"
  shows "all_in_range w'"
  using assms
  by (auto simp: Save_def all_in_range_iff ctx_at_hist_upd_data Option.bind_eq_Some_conv
      split: if_splits)

lemma fire_in_range:
  "fire_OnStackChanged c w = Some w' \<Longrightarrow> all_in_range w' = all_in_range w"
  by (auto simp: fire_OnStackChanged_def Option.bind_eq_Some_conv)

lemma Push_dtor_cases:
  assumes "HistoryPushController_dtor active w = Some (r, w')"
  shows "w' = w \<or> (\<exists>up. w' = SetContext up w)
       \<or> (\<exists>up c1 x1. ctx_at (SetContext up w) c1 = Some x1
             \<and> m_PresentHistoryIdx x1 < int (length (m_HistoryStack x1)) - 1
             \<and> w' = ctx_upd c1 (\<lambda>y. y\<lparr>m_PresentHistoryIdx := m_PresentHistoryIdx y + 1\<rparr>)
                       (SetContext up w))
       \<or> (\<exists>up c1. fire_OnStackChanged c1 (SetContext up w) = Some w')"
proof (cases "s_Lock w \<or> \<not> active")
  case True
  with assms show ?thesis by (auto simp: HistoryPushController_dtor_def split: if_splits)
next
  case False
  with assms obtain c u where c: "GetContext w = Some c" and u: "IsUndoing w c = Some u"
    by (auto simp: HistoryPushController_dtor_def Option.bind_eq_Some_conv)
  show ?thesis
  proof (cases u)
    case True
    with assms False c u show ?thesis by (simp add: HistoryPushController_dtor_def)
  next
    case notu: False
    with assms False c u obtain up c1 x1 up1 move
      where up: "ParentContext w c = Some up"
        and c1: "GetContext (SetContext up w) = Some c1"
        and x1: "ctx_at (SetContext up w) c1 = Some x1"
        and up1: "ParentContext (SetContext up w) c1 = Some up1"
        and move: "(case up1 of None \<Rightarrow> Some False
                    | Some _ \<Rightarrow> do { r \<leftarrow> IsRedoing (SetContext up w) c1;
                          Some (r \<and> m_PresentHistoryIdx x1 < int (length (m_HistoryStack x1)) - 1) })
                   = Some move"
        and rest: "(if move
            then Some (False, ctx_upd c1 (\<lambda>y. y\<lparr>m_PresentHistoryIdx := m_PresentHistoryIdx y + 1\<rparr>)
                                (SetContext up w))
            else do { r \<leftarrow> IsRedoing (SetContext up w) c1;
                      if \<not> r then do { w2 \<leftarrow> fire_OnStackChanged c1 (SetContext up w); Some (False, w2) }
                      else Some (False, SetContext up w) }) = Some (r, w')"
      by (simp add: HistoryPushController_dtor_def Let_def Option.bind_eq_Some_conv) blast
    show ?thesis
    proof (cases move)
      case True
      with move have "m_PresentHistoryIdx x1 < int (length (m_HistoryStack x1)) - 1"
        by (auto simp: Option.bind_eq_Some_conv split: option.splits)
      with True rest x1 show ?thesis by auto
    next
      case False
      with rest show ?thesis
        by (auto simp: Option.bind_eq_Some_conv split: if_splits)
    qed
  qed
qed

lemma Push_dtor_in_range:
  assumes "all_in_range w" and "HistoryPushController_dtor active w = Some (r, w')"
  shows "all_in_range w'"
proof -
  have set: "\<And>up. all_in_range (SetContext up w)"
    using assms(1) by (simp add: SetContext_def)
  from Push_dtor_cases [OF assms(2)] show ?thesis
  proof (elim disjE exE conjE)
    assume "w' = w" with assms(1) show ?thesis by simp
  next
    fix up assume "w' = SetContext up w" with set show ?thesis by simp
  next
    fix up c1 x1
    assume x1: "ctx_at (SetContext up w) c1 = Some x1"
      and lt: "m_PresentHistoryIdx x1 < int (length (m_HistoryStack x1)) - 1"
      and w': "w' = ctx_upd c1 (\<lambda>y. y\<lparr>m_PresentHistoryIdx := m_PresentHistoryIdx y + 1\<rparr>)
                       (SetContext up w)"
    from set x1 have "cursor_in_range x1" by (auto simp: all_in_range_iff)
    with lt have "cursor_in_range (x1\<lparr>m_PresentHistoryIdx := m_PresentHistoryIdx x1 + 1\<rparr>)"
      by (simp add: cursor_in_range_def)
    with x1 show ?thesis unfolding w'
      by (intro all_in_range_ctx_upd set) simp
  next
    fix up c1 assume "fire_OnStackChanged c1 (SetContext up w) = Some w'"
    with set show ?thesis by (simp add: fire_in_range)
  qed
qed

lemma Pop_dtor_cases:
  assumes "HistoryPopController_dtor w = Some w'"
  shows "w' = w \<or> (\<exists>up. w' = SetContext up w)
       \<or> (\<exists>up c1 x1. ctx_at (SetContext up w) c1 = Some x1 \<and> 1 < m_PresentHistoryIdx x1
             \<and> w' = ctx_upd c1 (\<lambda>y. y\<lparr>m_PresentHistoryIdx := m_PresentHistoryIdx y - 1\<rparr>)
                       (SetContext up w))"
  using assms
  by (auto simp: HistoryPopController_dtor_def Let_def Option.bind_eq_Some_conv split: if_splits)

lemma Pop_dtor_in_range:
  assumes "all_in_range w" and "HistoryPopController_dtor w = Some w'"
  shows "all_in_range w'"
proof -
  have set: "\<And>up. all_in_range (SetContext up w)"
    using assms(1) by (simp add: SetContext_def)
  from Pop_dtor_cases [OF assms(2)] show ?thesis
  proof (elim disjE exE conjE)
    assume "w' = w" with assms(1) show ?thesis by simp
  next
    fix up assume "w' = SetContext up w" with set show ?thesis by simp
  next
    fix up c1 x1
    assume x1: "ctx_at (SetContext up w) c1 = Some x1"
      and gt: "1 < m_PresentHistoryIdx x1"
      and w': "w' = ctx_upd c1 (\<lambda>y. y\<lparr>m_PresentHistoryIdx := m_PresentHistoryIdx y - 1\<rparr>)
                       (SetContext up w)"
    from set x1 have "cursor_in_range x1" by (auto simp: all_in_range_iff)
    with gt have "cursor_in_range (x1\<lparr>m_PresentHistoryIdx := m_PresentHistoryIdx x1 - 1\<rparr>)"
      by (simp add: cursor_in_range_def)
    with x1 show ?thesis unfolding w'
      by (intro all_in_range_ctx_upd set) simp
  qed
qed

lemma Push_in_range:
  assumes "all_in_range w" and "Push name d ud args c w = Some w'"
  shows "all_in_range w'"
proof (cases "s_Lock w \<or> IsUndoingOrRedoing w c = Some True")
  case True
  with assms show ?thesis by (auto simp: Push_def split: if_splits)
next
  case False
  with assms(2) have idle: "IsUndoingOrRedoing w c = Some False" and unlocked: "\<not> s_Lock w"
    by (auto simp: Push_def Option.bind_eq_Some_conv split: if_splits)
  from assms(2) unlocked idle obtain x where x: "ctx_at w c = Some x"
    by (auto simp: Push_def PrePush_def Option.bind_eq_Some_conv split: if_splits)
  note post = Push_post [OF unlocked idle assms(2) x]
  let ?a = "length (heap w)"
  let ?x' = "x\<lparr>m_PresentHistoryIdx := m_PresentHistoryIdx x + 1,
               m_HistoryStack := take (nat (m_PresentHistoryIdx x + 1)) (m_HistoryStack x)
                                  @ [Some ?a]\<rparr>"
  from post have range: "0 \<le> m_PresentHistoryIdx x + 1"
      "m_PresentHistoryIdx x + 1 \<le> int (length (m_HistoryStack x))"
    by simp_all
  from post have x': "ctx_at w' c = Some ?x'" by simp
  from post have new: "ctx_at w' (sub_ctx ?a) = Some (new_HistoryContext (Some c))"
    by auto
  from post have others: "\<forall>c'. c' \<noteq> c \<and> c' \<noteq> sub_ctx ?a
          \<longrightarrow> ctx_at w' c' = None \<or> ctx_at w' c' = ctx_at w c'"
    by simp
  show ?thesis unfolding all_in_range_iff
  proof (intro allI impI)
    fix c' y assume y: "ctx_at w' c' = Some y"
    show "cursor_in_range y"
    proof (cases "c' = c")
      case True
      with y x' have "y = ?x'" by simp
      with range show ?thesis by (simp add: cursor_in_range_def)
    next
      case ne: False
      show ?thesis
      proof (cases "c' = sub_ctx ?a")
        case True
        with y new have "y = new_HistoryContext (Some c)" by (simp del: ctx_at.simps)
        then show ?thesis by (simp add: cursor_in_range_def new_HistoryContext_def)
      next
        case False
        with ne others y have "ctx_at w c' = Some y" by auto
        with assms(1) show ?thesis by (auto simp: all_in_range_iff)
      qed
    qed
  qed
qed

lemma hist_at_ctx_upd_funcs:
  "hist_at (ctx_upd c f w) p = Some h' \<Longrightarrow>
     \<exists>h. hist_at w p = Some h \<and> m_DoFunc h = m_DoFunc h' \<and> m_UndoFunc h = m_UndoFunc h'
         \<and> m_Params h = m_Params h'"
  by (auto simp: hist_at_ctx_upd_eq split: if_splits)

lemma Undo_cases:
  assumes "Undo call c w = Some (r, w')"
  shows "w' = w \<or>
    (\<exists>w_out y. Undo_call call c w = Some (r, w_out) \<and> ctx_at w_out c = Some y \<and>
       w' = ctx_upd c (\<lambda>y. y\<lparr>m_PresentHistoryIdx := m_PresentHistoryIdx y - 1,
                               m_IsUndoing := False, m_Mutex := False\<rparr>)
              (w_out\<lparr>notified := notified w_out @
                  [(c, m_OnStackChanged y, m_PresentHistoryIdx y - 1)]\<rparr>))"
proof (cases "s_Lock w")
  case True
  with assms show ?thesis by (simp add: Undo_def)
next
  case False
  with assms obtain x where x: "ctx_at w c = Some x" and free: "\<not> m_Mutex x"
    by (auto simp: Undo_def Option.bind_eq_Some_conv split: if_splits)
  show ?thesis
  proof (cases "m_PresentHistoryIdx x = 0")
    case True
    with assms False x free show ?thesis by (simp add: Undo_def)
  next
    case nz: False
    with assms False x free obtain p h' where slot: "stack_at x (m_PresentHistoryIdx x) = Some (Some p)"
      and h': "hist_at (Undo_entry c w) p = Some h'"
      by (auto simp: Undo_def Undo_entry_def Let_def Option.bind_eq_Some_conv)
    from hist_at_ctx_upd_funcs [OF h' [unfolded Undo_entry_def]]
    obtain h where h: "hist_at w p = Some h"
      by blast
    have call: "Undo_call call c w = call (m_UndoFunc h) (m_Params h) (Undo_entry c w)"
      using x slot h by (simp add: Undo_call_def)
    from assms show ?thesis
      unfolding Undo_steps [OF False x free nz slot h] call [symmetric]
      by (auto simp: Option.bind_eq_Some_conv)
  qed
qed

lemma Redo_cases:
  assumes "Redo call c w = Some (r, w')"
  shows "w' = w \<or>
    (\<exists>w_out y. Redo_call call c w = Some (r, w_out) \<and> ctx_at w_out c = Some y \<and>
       w' = ctx_upd c (\<lambda>y. y\<lparr>m_IsRedoing := False, m_Mutex := False\<rparr>)
              (w_out\<lparr>notified := notified w_out @
                  [(c, m_OnStackChanged y, m_PresentHistoryIdx y)]\<rparr>))"
proof (cases "s_Lock w")
  case True
  with assms show ?thesis by (simp add: Redo_def)
next
  case False
  with assms obtain x where x: "ctx_at w c = Some x" and free: "\<not> m_Mutex x"
    by (auto simp: Redo_def Option.bind_eq_Some_conv split: if_splits)
  show ?thesis
  proof (cases "m_PresentHistoryIdx x = int (length (m_HistoryStack x)) - 1")
    case True
    with assms False x free show ?thesis by (simp add: Redo_def)
  next
    case nz: False
    with assms False x free obtain p h' where slot: "stack_at x (m_PresentHistoryIdx x + 1) = Some (Some p)"
      and h': "hist_at (Redo_entry c w) p = Some h'"
      by (auto simp: Redo_def Redo_entry_def Let_def ctx_upd_ctx_upd Option.bind_eq_Some_conv)
    from hist_at_ctx_upd_funcs [OF h' [unfolded Redo_entry_def]]
    obtain h where h: "hist_at w p = Some h"
      by blast
    have call: "Redo_call call c w = call (m_DoFunc h) (m_Params h) (Redo_entry c w)"
      using x slot h by (simp add: Redo_call_def)
    from assms show ?thesis
      unfolding Redo_steps [OF False x free slot h] call [symmetric]
      by (auto simp: Option.bind_eq_Some_conv)
  qed
qed

lemma Undo_in_range:
  assumes "all_in_range w" and "admissible call (op_Undo c) w" and "Undo call c w = Some (r, w')"
  shows "all_in_range w'"
  using Undo_cases [OF assms(3)]
proof (elim disjE exE conjE)
  assume "w' = w" with assms(1) show ?thesis by simp
next
  fix w_out y
  assume run: "Undo_call call c w = Some (r, w_out)" and y: "ctx_at w_out c = Some y"
    and w': "w' = ctx_upd c (\<lambda>y. y\<lparr>m_PresentHistoryIdx := m_PresentHistoryIdx y - 1,
                               m_IsUndoing := False, m_Mutex := False\<rparr>)
              (w_out\<lparr>notified := notified w_out @
                  [(c, m_OnStackChanged y, m_PresentHistoryIdx y - 1)]\<rparr>)"
  from assms(2) run y have out: "all_in_range w_out" and ge: "1 \<le> m_PresentHistoryIdx y"
    by simp_all
  from out y have "cursor_in_range y" by (auto simp: all_in_range_iff)
  with ge have "cursor_in_range (y\<lparr>m_PresentHistoryIdx := m_PresentHistoryIdx y - 1,
                               m_IsUndoing := False, m_Mutex := False\<rparr>)"
    by (simp add: cursor_in_range_def)
  with out y show ?thesis unfolding w'
    by (intro all_in_range_ctx_upd) simp_all
qed

lemma Redo_in_range:
  assumes "all_in_range w" and "admissible call (op_Redo c) w" and "Redo call c w = Some (r, w')"
  shows "all_in_range w'"
  using Redo_cases [OF assms(3)]
proof (elim disjE exE conjE)
  assume "w' = w" with assms(1) show ?thesis by simp
next
  fix w_out y
  assume run: "Redo_call call c w = Some (r, w_out)" and y: "ctx_at w_out c = Some y"
    and w': "w' = ctx_upd c (\<lambda>y. y\<lparr>m_IsRedoing := False, m_Mutex := False\<rparr>)
              (w_out\<lparr>notified := notified w_out @
                  [(c, m_OnStackChanged y, m_PresentHistoryIdx y)]\<rparr>)"
  from assms(2) run have out: "all_in_range w_out"
    by simp
  from out y have "cursor_in_range y" by (auto simp: all_in_range_iff)
  then have "cursor_in_range (y\<lparr>m_IsRedoing := False, m_Mutex := False\<rparr>)"
    by (simp add: cursor_in_range_def)
  with out y show ?thesis unfolding w'
    by (intro all_in_range_ctx_upd) simp_all
qed

text \<open>
  C4, amended. Push, undo, redo, clear, save and the release of a push or pop
  controller preserve the cursor invariant of every context, for undo and redo
  provided the delegate they call returns a state in which the invariant holds and,
  for undo, in which the cursor of the context is at least 1. AbortPush preserves it
  when the cursor of the context is at least 1.
\<close>

theorem cursor_range_preserved:
  assumes "all_in_range w" and "admissible call op w" and "exec call op w = Some w'"
  shows "all_in_range w'"
proof (cases op)
  case (op_Push c name d ud args)
  with assms show ?thesis by (auto intro: Push_in_range)
next
  case (op_AbortPush c)
  with assms show ?thesis by (auto intro: AbortPush_in_range)
next
  case (op_Undo c)
  with assms show ?thesis by (auto intro: Undo_in_range)
next
  case (op_Redo c)
  with assms show ?thesis by (auto intro: Redo_in_range)
next
  case (op_Clear c)
  with assms show ?thesis by (auto intro: Clear_in_range)
next
  case (op_Save p key val)
  with assms show ?thesis by (auto intro: Save_in_range)
next
  case (op_PushRelease active)
  with assms show ?thesis by (auto intro: Push_dtor_in_range)
next
  case op_PopRelease
  with assms show ?thesis by (auto intro: Pop_dtor_in_range)
qed

theorem cursor_range_preserved_witness:
  "all_in_range added_world
   \<and> admissible TrivialManager (op_Undo (host_ctx 0)) added_world
   \<and> exec TrivialManager (op_Undo (host_ctx 0)) added_world = Some undone_world
   \<and> all_in_range undone_world"
proof -
  have inv: "all_in_range added_world"
    by (simp add: all_in_range_def cursor_in_range_def showcase_defs new_HistoryContext_def)
  have body: "admissible TrivialManager (op_Undo (host_ctx 0)) added_world"
    by (simp add: Undo_call_def Undo_entry_def run_defs showcase_defs all_in_range_def
        cursor_in_range_def)
  have run: "exec TrivialManager (op_Undo (host_ctx 0)) added_world = Some undone_world"
    using showcase_undo by simp
  from cursor_range_preserved [OF inv body run] inv body run show ?thesis
    by simp
qed

theorem AbortPush_range_counterexample:
  "all_in_range fresh_world
   \<and> map_option all_in_range (exec TrivialManager (op_AbortPush (host_ctx 0)) fresh_world)
       = Some False
   \<and> map_option (map m_PresentHistoryIdx \<circ> host_contexts)
        (exec TrivialManager (op_AbortPush (host_ctx 0)) fresh_world) = Some [- 1]"
  by (simp add: fresh_world_def startup_def all_in_range_def cursor_in_range_def run_defs)


subsection \<open>Notifications\<close>

lemma IsRedoing_frame_Some:
  assumes "IsRedoing w c = Some b"
  shows "(\<forall>c'. ctx_at v c' = ctx_at w c') \<longrightarrow> s_Lock v = s_Lock w \<longrightarrow> IsRedoing v c = Some b"
  using assms
proof (rule IsRedoing.raw_induct [rotated])
  fix walk :: "('a, 'b) world \<Rightarrow> ctx_ptr \<Rightarrow> bool option" and w c b
  assume IH: "\<And>w c b. walk w c = Some b \<Longrightarrow>
      (\<forall>c'. ctx_at v c' = ctx_at w c') \<longrightarrow> s_Lock v = s_Lock w \<longrightarrow> IsRedoing v c = Some b"
    and body: "ctx_at w c \<bind>
       (\<lambda>x. if m_IsRedoing x then Some True
            else ParentContext w c \<bind>
                 (\<lambda>parent. case parent of None \<Rightarrow> Some False | Some up \<Rightarrow> walk w up)) = Some b"
  show "(\<forall>c'. ctx_at v c' = ctx_at w c') \<longrightarrow> s_Lock v = s_Lock w \<longrightarrow> IsRedoing v c = Some b"
  proof (intro impI)
    assume same: "\<forall>c'. ctx_at v c' = ctx_at w c'" and lock: "s_Lock v = s_Lock w"
    from body obtain x where x: "ctx_at w c = Some x"
      by (auto simp: Option.bind_eq_Some_conv)
    with same have xv: "ctx_at v c = Some x" by simp
    show "IsRedoing v c = Some b"
    proof (cases "m_IsRedoing x")
      case True
      with body x xv show ?thesis by (subst IsRedoing.simps) simp
    next
      case False
      from xv x lock have par: "ParentContext v c = ParentContext w c"
        by (simp add: ParentContext_def)
      show ?thesis
      proof (cases "ParentContext w c")
        case None
        with body x False show ?thesis by simp
      next
        case (Some parent)
        show ?thesis
        proof (cases parent)
          case None
          with body x False Some par xv show ?thesis by (subst IsRedoing.simps) simp
        next
          case (Some up)
          with body x False \<open>ParentContext w c = Some parent\<close> have "walk w up = Some b" by simp
          from IH [OF this] same lock have "IsRedoing v up = Some b" by blast
          with x False \<open>ParentContext w c = Some parent\<close> Some par xv show ?thesis
            by (subst IsRedoing.simps) simp
        qed
      qed
    qed
  qed
qed

lemma IsRedoing_SetContext [simp]: "IsRedoing (SetContext a w) c = IsRedoing w c"
proof (cases "IsRedoing w c")
  case (Some b)
  from IsRedoing_frame_Some [OF this, of "SetContext a w"] Some show ?thesis
    by (simp add: SetContext_def)
next
  case None
  show ?thesis
  proof (cases "IsRedoing (SetContext a w) c")
    case None
    with \<open>IsRedoing w c = None\<close> show ?thesis by simp
  next
    case (Some b)
    from IsRedoing_frame_Some [OF this, of w] have "IsRedoing w c = Some b"
      by (simp add: SetContext_def)
    with None show ?thesis by simp
  qed
qed








lemma inside_steps:
  "Push ''AddNewObject'' 0 1 [] (host_ctx 0) watched_world \<bind> HistoryPushController_ctor
     = Some (inside_world\<lparr>host := []\<rparr>)"
  by (simp add: run_defs showcase_defs inside_world_def)





end
